(* ===== verification/Prelude.thy ===== *)
theory Prelude
  imports Complex_Main "HOL-Library.Word" "HOL-Library.AList"
begin

text \<open>
  Shared vocabulary of the development of \<^verbatim>\<open>src/kriptografi_app2.py\<close>.
  A Python \<^verbatim>\<open>str\<close> is a list of Unicode code points (\<open>codepoint = nat\<close>);
  \<^verbatim>\<open>ord\<close> and \<^verbatim>\<open>chr\<close> are the identity on this representation.
  Python exceptions are values of \<open>py_error\<close>, and a computation that may raise
  has type \<open>py_error + 'a\<close> (\<open>Inl\<close> the exception), sequenced by \<open>sbind\<close>.
  Python's \<^verbatim>\<open>%\<close> on integers rounds towards minus infinity, as HOL's \<open>mod\<close>
  on \<open>int\<close> does, so \<^verbatim>\<open>x % 256\<close> is \<open>x mod 256\<close> with no correction.
\<close>

type_synonym codepoint = nat
type_synonym pystr = "codepoint list"

datatype py_error = ZeroDivisionError | TypeError | IndexError | ValueError

named_theorems byte_simps "arithmetic facts on the 0..255 byte domain"

definition sbind :: "'e + 'a \<Rightarrow> ('a \<Rightarrow> 'e + 'b) \<Rightarrow> 'e + 'b" where
  "sbind m f = (case m of Inl e \<Rightarrow> Inl e | Inr a \<Rightarrow> f a)"

text \<open>Python list indexing \<^verbatim>\<open>xs[i]\<close>: negative indices count from the end,
  anything else out of range raises \<^verbatim>\<open>IndexError\<close>.\<close>

definition py_index :: "'a list \<Rightarrow> int \<Rightarrow> py_error + 'a" where
  "py_index xs i =
     (let n = int (length xs)
      in if 0 \<le> i \<and> i < n then Inr (xs ! nat i)
         else if - n \<le> i \<and> i < 0 then Inr (xs ! nat (n + i))
         else Inl IndexError)"

text \<open>\<^verbatim>\<open>ord(s)\<close> on a string: defined only for strings of length one.\<close>

definition py_ord :: "pystr \<Rightarrow> py_error + codepoint" where
  "py_ord s = (case s of [c] \<Rightarrow> Inr c | _ \<Rightarrow> Inl TypeError)"

text \<open>\<^verbatim>\<open>x % 256\<close> for a Python int \<^verbatim>\<open>x\<close>, the argument the ciphers pass to
  \<^verbatim>\<open>chr\<close>.\<close>

definition mod256 :: "int \<Rightarrow> codepoint" where
  "mod256 x = nat (x mod 256)"

subsection \<open>Generic lemmas\<close>

lemma sbind_Inl [simp]: "sbind (Inl e) f = Inl e"
  by (simp add: sbind_def)

lemma sbind_Inr [simp]: "sbind (Inr a) f = f a"
  by (simp add: sbind_def)

lemma sbind_eq_Inr_iff:
  "sbind m f = Inr b \<longleftrightarrow> (\<exists>a. m = Inr a \<and> f a = Inr b)"
  by (cases m) auto

lemma py_index_nonneg [simp]:
  "i < length xs \<Longrightarrow> py_index xs (int i) = Inr (xs ! i)"
  by (simp add: py_index_def)

lemma py_index_last [simp]:
  "xs \<noteq> [] \<Longrightarrow> py_index xs (-1) = Inr (last xs)"
  by (simp add: py_index_def last_conv_nth nat_diff_distrib Suc_le_eq)

lemma py_index_Inr_iff:
  "(\<exists>v. py_index xs i = Inr v) \<longleftrightarrow> - int (length xs) \<le> i \<and> i < int (length xs)"
  by (auto simp add: py_index_def Let_def)

lemma mod256_lt [byte_simps]: "mod256 x < 256"
  by (simp add: mod256_def nat_less_iff)

lemma int_mod256: "int (mod256 x) = x mod 256"
  by (simp add: mod256_def)

lemma mod256_of_byte [byte_simps]: "c < 256 \<Longrightarrow> mod256 (int c) = c"
  by (simp add: mod256_def)

text \<open>Adding and then subtracting the same amount modulo 256 restores a byte,
  whatever the sign of the amount: the arithmetic core of every round trip.\<close>

lemma mod256_add_sub [byte_simps]:
  "c < 256 \<Longrightarrow> mod256 (int (mod256 (int c + s)) - s) = c"
  by (simp add: mod256_def mod_diff_left_eq)

text \<open>For any code point the same two steps keep only its residue modulo 256.\<close>

lemma mod256_add_sub_any:
  "mod256 (int (mod256 (int c + s)) - s) = c mod 256"
  by (simp add: mod256_def mod_diff_left_eq nat_mod_distrib)

lemma mod256_sub_add [byte_simps]:
  "c < 256 \<Longrightarrow> mod256 (int (mod256 (int c - s)) + s) = c"
  by (simp add: mod256_def mod_add_left_eq)

end
