(* ===== verification/Caesar.thy ===== *)
theory Caesar
  imports Prelude
begin

text \<open>
  The Caesar stage, \<^verbatim>\<open>caesar_process\<close> (lines 54--69): every code point is
  shifted by the same amount modulo 256, the amount negated for decryption.
  The display trace \<^verbatim>\<open>details\<close> is kept as structured entries instead of
  formatted strings: one per character for the first 20 characters, then the
  count of the rest.
\<close>

datatype caesar_detail =
    CaesarStep codepoint codepoint  \<comment> \<open>input character and \<^verbatim>\<open>new_val\<close>\<close>
  | CaesarMore nat                  \<comment> \<open>\<^verbatim>\<open>... +n more\<close>\<close>

text \<open>The \<^verbatim>\<open>for i, char in enumerate(text)\<close> loop, with \<^verbatim>\<open>result\<close>
  and \<^verbatim>\<open>details\<close> as accumulators.\<close>

fun caesar_loop ::
  "int \<Rightarrow> nat \<Rightarrow> pystr \<Rightarrow> pystr \<Rightarrow> caesar_detail list \<Rightarrow> pystr \<times> caesar_detail list" where
  "caesar_loop shift i [] result details = (result, details)"
| "caesar_loop shift i (c # cs) result details =
     (let new_val = mod256 (int c + shift)
      in caesar_loop shift (Suc i) cs (result @ [new_val])
           (if i < 20 then details @ [CaesarStep c new_val] else details))"

definition caesar_process :: "pystr \<Rightarrow> int \<Rightarrow> bool \<Rightarrow> pystr \<times> caesar_detail list" where
  "caesar_process text shift encrypt =
     (let shift' = (if \<not> encrypt then - shift else shift);
          (result, details) = caesar_loop shift' 0 text [] []
      in (result,
          if 20 < length text then details @ [CaesarMore (length text - 20)] else details))"

text \<open>The per-character function the loop applies.\<close>

definition caesar_char :: "int \<Rightarrow> codepoint \<Rightarrow> codepoint" where
  "caesar_char shift c = mod256 (int c + shift)"

subsection \<open>The loop\<close>

lemma caesar_loop_result:
  "fst (caesar_loop shift i cs result details) = result @ map (caesar_char shift) cs"
  by (induction cs arbitrary: i result details) (simp_all add: caesar_char_def Let_def)

lemma caesar_loop_details:
  "snd (caesar_loop shift i cs result details) =
     details @ map (\<lambda>c. CaesarStep c (caesar_char shift c)) (take (20 - i) cs)"
proof (induction cs arbitrary: i result details)
  case Nil
  then show ?case by simp
next
  case (Cons c cs)
  then show ?case
    by (cases "i < 20") (simp_all add: caesar_char_def Let_def take_Cons')
qed

lemma caesar_process_fst:
  "fst (caesar_process text shift encrypt) =
     map (caesar_char (if encrypt then shift else - shift)) text"
  by (simp add: caesar_process_def split_def Let_def caesar_loop_result)

lemma caesar_process_snd:
  "snd (caesar_process text shift encrypt) =
     map (\<lambda>c. CaesarStep c (caesar_char (if encrypt then shift else - shift) c)) (take 20 text) @
     (if 20 < length text then [CaesarMore (length text - 20)] else [])"
  by (simp add: caesar_process_def split_def Let_def caesar_loop_details)

lemma caesar_char_lt [byte_simps]: "caesar_char shift c < 256"
  by (simp add: caesar_char_def mod256_lt mod256_add_sub)

lemma caesar_char_inverse [byte_simps]:
  "c < 256 \<Longrightarrow> caesar_char (- shift) (caesar_char shift c) = c"
  by (simp add: caesar_char_def mod256_lt mod256_add_sub)

lemma caesar_char_inverse_any:
  "caesar_char (- shift) (caesar_char shift c) = c mod 256"
  using mod256_add_sub_any [of c shift] by (simp add: caesar_char_def)

lemma caesar_process_length [simp]:
  "length (fst (caesar_process text shift encrypt)) = length text"
  by (simp add: caesar_process_fst)

lemma caesar_process_bytes: "\<forall>c\<in>set (fst (caesar_process text shift encrypt)). c < 256"
  by (simp add: caesar_process_fst caesar_char_lt)

subsection \<open>Properties\<close>

text \<open>C5: Caesar decryption with the same shift undoes Caesar encryption on every
  text whose code points are below 256.\<close>

theorem caesar_roundtrip:
  assumes "\<forall>c\<in>set text. c < 256"
  shows "fst (caesar_process (fst (caesar_process text shift True)) shift False) = text"
proof -
  have "map (caesar_char (- shift)) (map (caesar_char shift) text) = text"
    using assms by (induction "text") (simp_all add: caesar_char_inverse)
  then show ?thesis by (simp add: caesar_process_fst)
qed

theorem caesar_roundtrip_witness:
  "fst (caesar_process (fst (caesar_process [65, 255, 0] 25 True)) 25 False) = [65, 255, 0]"
  by (rule caesar_roundtrip) simp

text \<open>C16: the Caesar stage maps every code point \<open>c\<close> to
  \<open>(c + shift) mod 256\<close> when encrypting and \<open>(c - shift) mod 256\<close> when
  decrypting, with the Python (floor) modulo, so the result has the input's length
  and only code points below 256.\<close>

theorem caesar_process_result:
  "fst (caesar_process text shift encrypt) =
     map (\<lambda>c. nat ((int c + (if encrypt then shift else - shift)) mod 256)) text \<and>
   length (fst (caesar_process text shift encrypt)) = length text \<and>
   (\<forall>c\<in>set (fst (caesar_process text shift encrypt)). c < 256)"
  by (auto simp add: caesar_process_fst caesar_char_def mod256_def nat_less_iff)

theorem caesar_process_result_witness:
  "fst (caesar_process [250, 3] 10 True) = [4, 13] \<and>
   length (fst (caesar_process [250, 3] 10 True)) = 2"
  using caesar_process_result [of "[250, 3]" 10 True] by simp

text \<open>C30: the Caesar trace has one entry per character for at most the first 20
  characters, then one entry counting the rest; it never holds more than 21 entries.\<close>

theorem caesar_trace_bounded:
  "length (snd (caesar_process text shift encrypt)) =
     min 20 (length text) + (if 20 < length text then 1 else 0) \<and>
   length (snd (caesar_process text shift encrypt)) \<le> 21"
  by (simp add: caesar_process_snd)

end
