(* ===== verification/Vigenere.thy ===== *)
theory Vigenere
  imports Prelude
begin

text \<open>
  The Vigenere stage, \<^verbatim>\<open>vigenere_process\<close> (lines 27--52). Character \<open>i\<close>
  of the text is shifted by \<open>ord(k.upper()) - 65\<close> where \<open>k\<close> is key
  character \<open>i mod len(key)\<close>; the shift is added when encrypting and
  subtracted when decrypting, modulo 256. Nothing checks the key: an empty key
  raises \<^verbatim>\<open>ZeroDivisionError\<close> at the first character, and a key character
  whose upper case is not a single character (sharp s upper-cases to \<^verbatim>\<open>'SS'\<close>)
  makes \<^verbatim>\<open>ord\<close> raise \<^verbatim>\<open>TypeError\<close>.
\<close>

text \<open>\<^verbatim>\<open>str.upper\<close> on one character, for the Latin-1 range
  (code points below 256), following the Unicode case tables Python uses: ASCII and
  Latin-1 lower-case letters move down by 32, micro sign (181) becomes Greek capital
  Mu (924), y with diaeresis (255) becomes U+0178 (376), and sharp s (223)
  becomes the two characters \<^verbatim>\<open>SS\<close>. Code points from 256 on are taken to be
  caseless; the model does not include the rest of the Unicode table.\<close>

definition py_upper :: "codepoint \<Rightarrow> pystr" where
  "py_upper c =
     (if 97 \<le> c \<and> c \<le> 122 then [c - 32]
      else if c = 181 then [924]
      else if c = 223 then [83, 83]
      else if 224 \<le> c \<and> c \<le> 254 \<and> c \<noteq> 247 then [c - 32]
      else if c = 255 then [376]
      else [c])"

datatype vig_detail =
    VigHeader pystr nat                      \<comment> \<open>\<^verbatim>\<open>Key: {key} (length: {len(key)})\<close>\<close>
  | VigStep codepoint bool pystr int codepoint  \<comment> \<open>char, op is \<^verbatim>\<open>+\<close>, \<^verbatim>\<open>k_char.upper()\<close>, shift, \<^verbatim>\<open>new_val\<close>\<close>
  | VigMore nat                              \<comment> \<open>\<^verbatim>\<open>... +n more\<close>\<close>

text \<open>The loop of lines 32--48, with \<open>i\<close> (from \<^verbatim>\<open>enumerate\<close>),
  \<^verbatim>\<open>key_idx\<close>, \<^verbatim>\<open>result\<close> and \<^verbatim>\<open>details\<close> as parameters.\<close>

fun vig_loop ::
  "pystr \<Rightarrow> bool \<Rightarrow> nat \<Rightarrow> nat \<Rightarrow> pystr \<Rightarrow> pystr \<Rightarrow> vig_detail list
     \<Rightarrow> py_error + pystr \<times> vig_detail list" where
  "vig_loop key encrypt i key_idx [] result details = Inr (result, details)"
| "vig_loop key encrypt i key_idx (c # cs) result details =
     (if length key = 0 then Inl ZeroDivisionError
      else
        let k_char = key ! (key_idx mod length key);
            up = py_upper k_char
        in sbind (py_ord up) (\<lambda>u.
             let shift = int u - 65;
                 new_val = (if encrypt then mod256 (int c + shift) else mod256 (int c - shift))
             in vig_loop key encrypt (Suc i) (Suc key_idx) cs (result @ [new_val])
                  (if i < 20 then details @ [VigStep c encrypt up shift new_val] else details)))"

definition vigenere_process ::
  "pystr \<Rightarrow> pystr \<Rightarrow> bool \<Rightarrow> py_error + pystr \<times> vig_detail list" where
  "vigenere_process text key encrypt =
     sbind (vig_loop key encrypt 0 0 text [] [VigHeader key (length key)]) (\<lambda>(result, details).
       Inr (result,
            if 20 < length text then details @ [VigMore (length text - 20)] else details))"

subsection \<open>Reference functions\<close>

text \<open>A key the loop accepts: non-empty, and every character's upper case is one
  character.\<close>

definition key_ok :: "pystr \<Rightarrow> bool" where
  "key_ok key \<longleftrightarrow> key \<noteq> [] \<and> list_all (\<lambda>k. length (py_upper k) = 1) key"

text \<open>The shift used at position \<open>j\<close>, and the per-character map.\<close>

definition key_shift :: "pystr \<Rightarrow> nat \<Rightarrow> int" where
  "key_shift key j = int (hd (py_upper (key ! (j mod length key)))) - 65"

definition vig_char :: "bool \<Rightarrow> int \<Rightarrow> codepoint \<Rightarrow> codepoint" where
  "vig_char encrypt shift c =
     (if encrypt then mod256 (int c + shift) else mod256 (int c - shift))"

definition vig_step :: "pystr \<Rightarrow> bool \<Rightarrow> nat \<times> codepoint \<Rightarrow> vig_detail" where
  "vig_step key encrypt jc =
     (let (j, c) = jc
      in VigStep c encrypt (py_upper (key ! (j mod length key))) (key_shift key j)
           (vig_char encrypt (key_shift key j) c))"

definition vig_spec :: "pystr \<Rightarrow> bool \<Rightarrow> pystr \<Rightarrow> pystr" where
  "vig_spec key encrypt text =
     map (\<lambda>(j, c). vig_char encrypt (key_shift key j) c) (enumerate 0 text)"

subsection \<open>The loop\<close>

lemma py_upper_nonempty: "py_upper c \<noteq> []"
  by (simp add: py_upper_def)

lemma key_ok_upper:
  assumes "key_ok key"
  shows "py_ord (py_upper (key ! (j mod length key))) = Inr (hd (py_upper (key ! (j mod length key))))"
proof -
  from assms have "length (py_upper (key ! (j mod length key))) = 1"
    by (auto simp: key_ok_def list_all_length)
  then show ?thesis
    by (auto simp: py_ord_def length_Suc_conv)
qed

lemma vig_loop_key_ok:
  assumes "key_ok key"
  shows "vig_loop key encrypt i key_idx cs result details =
           Inr (result @ map (\<lambda>(j, c). vig_char encrypt (key_shift key j) c) (enumerate key_idx cs),
                details @ map (vig_step key encrypt) (take (20 - i) (enumerate key_idx cs)))"
proof (induction cs arbitrary: i key_idx result details)
  case Nil
  show ?case by simp
next
  case (Cons c cs)
  from assms have "length key \<noteq> 0" by (simp add: key_ok_def)
  with Cons show ?case
    by (cases "i < 20")
       (simp_all add: key_ok_upper [OF assms] Let_def vig_char_def key_shift_def
          vig_step_def take_Cons')
qed

lemma vig_loop_Inr_iff:
  assumes "key \<noteq> []"
  shows "(\<exists>r. vig_loop key encrypt i key_idx cs result details = Inr r) \<longleftrightarrow>
           (\<forall>j<length cs. length (py_upper (key ! ((key_idx + j) mod length key))) = 1)"
proof (induction cs arbitrary: i key_idx result details)
  case Nil
  show ?case by simp
next
  case (Cons c cs)
  have ord: "(\<exists>u. py_ord s = Inr u) \<longleftrightarrow> length s = 1" for s :: pystr
    by (auto simp: py_ord_def length_Suc_conv split: list.splits)
  have "(\<exists>r. vig_loop key encrypt i key_idx (c # cs) result details = Inr r) \<longleftrightarrow>
          length (py_upper (key ! (key_idx mod length key))) = 1 \<and>
          (\<forall>j<length cs. length (py_upper (key ! ((Suc key_idx + j) mod length key))) = 1)"
    using assms Cons.IH ord [of "py_upper (key ! (key_idx mod length key))"]
    by (auto simp: Let_def sbind_def split: sum.splits)
  also have "\<dots> \<longleftrightarrow> (\<forall>j<length (c # cs). length (py_upper (key ! ((key_idx + j) mod length key))) = 1)"
    by (simp add: All_less_Suc2)
  finally show ?case .
qed

lemma vig_spec_length [simp]: "length (vig_spec key encrypt text) = length text"
  by (simp add: vig_spec_def)

lemma vig_spec_nth:
  "j < length text \<Longrightarrow> vig_spec key encrypt text ! j = vig_char encrypt (key_shift key j) (text ! j)"
  by (simp add: vig_spec_def nth_enumerate_eq)

lemma vig_char_nat:
  "vig_char encrypt s c = nat ((if encrypt then int c + s else int c - s) mod 256)"
  by (simp add: vig_char_def mod256_def)

lemma vig_char_inverse [byte_simps]:
  "c < 256 \<Longrightarrow> vig_char False s (vig_char True s c) = c"
  by (simp add: vig_char_def mod256_add_sub)

lemma vig_char_lt [byte_simps]: "vig_char encrypt s c < 256"
  by (simp add: vig_char_def mod256_lt)

lemma vig_char_inverse_any:
  "vig_char False s (vig_char True s c) = c mod 256"
  by (simp add: vig_char_def mod256_add_sub_any)

lemma vig_spec_inverse_any:
  "vig_spec key False (vig_spec key True text) = map (\<lambda>c. c mod 256) text"
  by (rule nth_equalityI) (simp_all add: vig_spec_nth vig_char_inverse_any)

lemma vig_spec_lt: "\<forall>c\<in>set (vig_spec key encrypt text). c < 256"
  by (simp add: vig_spec_def vig_char_lt split_def)

lemma vig_loop_length:
  "vig_loop key encrypt i key_idx cs result details = Inr (r, d) \<Longrightarrow>
     length r = length result + length cs"
proof (induction cs arbitrary: i key_idx result details)
  case Nil
  then show ?case by simp
next
  case (Cons c cs)
  then show ?case
    by (auto simp: Let_def sbind_def split: if_splits sum.splits)
qed

lemma vigenere_process_length:
  "vigenere_process text key encrypt = Inr (r, d) \<Longrightarrow> length r = length text"
  by (auto simp: vigenere_process_def sbind_def split: sum.splits dest: vig_loop_length)

lemma vig_spec_inverse:
  "\<forall>c\<in>set text. c < 256 \<Longrightarrow> vig_spec key False (vig_spec key True text) = text"
  by (rule nth_equalityI) (simp_all add: vig_spec_nth vig_char_inverse)

lemma vigenere_process_key_ok:
  assumes "key_ok key"
  shows "vigenere_process text key encrypt =
           Inr (vig_spec key encrypt text,
                VigHeader key (length key) # map (vig_step key encrypt) (take 20 (enumerate 0 text)) @
                (if 20 < length text then [VigMore (length text - 20)] else []))"
  by (simp add: vigenere_process_def vig_loop_key_ok [OF assms] vig_spec_def)

lemma vigenere_process_Inr_iff:
  "(\<exists>r. vigenere_process text key encrypt = Inr r) \<longleftrightarrow>
     (\<exists>r. vig_loop key encrypt 0 0 text [] [VigHeader key (length key)] = Inr r)"
  by (auto simp: vigenere_process_def sbind_def split: sum.splits prod.splits)

lemma vig_loop_bytes:
  "vig_loop key encrypt i key_idx cs result details = Inr (r, d) \<Longrightarrow>
     \<forall>c\<in>set result. c < 256 \<Longrightarrow> \<forall>c\<in>set r. c < 256"
proof (induction cs arbitrary: i key_idx result details)
  case Nil
  then show ?case by simp
next
  case (Cons c cs)
  show ?case
  proof (cases "length key = 0")
    case True
    with Cons.prems show ?thesis by simp
  next
    case False
    let ?up = "py_upper (key ! (key_idx mod length key))"
    show ?thesis
    proof (cases "py_ord ?up")
      case (Inl e)
      with Cons.prems(1) False show ?thesis by (simp add: Let_def)
    next
      case (Inr u)
      let ?v = "if encrypt then mod256 (int c + (int u - 65)) else mod256 (int c - (int u - 65))"
      have rec: "vig_loop key encrypt (Suc i) (Suc key_idx) cs (result @ [?v])
                   (if i < 20 then details @ [VigStep c encrypt ?up (int u - 65) ?v] else details) = Inr (r, d)"
        using Cons.prems(1) False Inr by (simp add: Let_def)
      have "\<forall>c\<in>set (result @ [?v]). c < 256"
        using Cons.prems(2) by (simp add: mod256_lt)
      then show ?thesis by (rule Cons.IH [OF rec])
    qed
  qed
qed

lemma vigenere_process_bytes:
  "vigenere_process text key encrypt = Inr (r, d) \<Longrightarrow> \<forall>c\<in>set r. c < 256"
  by (cases "vig_loop key encrypt 0 0 text [] [VigHeader key (length key)]")
     (auto simp: vigenere_process_def dest: vig_loop_bytes)

text \<open>On Latin-1 characters \<open>py_upper\<close> is Python's \<^verbatim>\<open>str.upper\<close>, and the only
  Latin-1 character whose upper case is not one character is \<open>\<ss>\<close> (223).\<close>

lemma length_py_upper_latin1:
  "c < 256 \<Longrightarrow> length (py_upper c) = 1 \<longleftrightarrow> c \<noteq> 223"
  by (simp add: py_upper_def)

lemma key_ok_latin1:
  assumes "key \<noteq> []" and "\<forall>k\<in>set key. k < 256"
  shows "key_ok key \<longleftrightarrow> 223 \<notin> set key"
  using assms length_py_upper_latin1 by (auto simp: key_ok_def list_all_iff)

subsection \<open>Properties\<close>

text \<open>C4: with a key the loop accepts, Vigenere decryption with the same key undoes
  Vigenere encryption on every text whose code points are below 256; neither call
  raises.\<close>

theorem vigenere_roundtrip:
  assumes "key_ok key" and "\<forall>c\<in>set text. c < 256"
  shows "\<exists>ct d1 d2. vigenere_process text key True = Inr (ct, d1) \<and>
                   vigenere_process ct key False = Inr (text, d2)"
  using assms by (simp add: vigenere_process_key_ok vig_spec_inverse)

theorem vigenere_roundtrip_witness:
  "\<exists>ct d1 d2. vigenere_process [104, 105, 255] [114, 97, 104] True = Inr (ct, d1) \<and>
              vigenere_process ct [114, 97, 104] False = Inr ([104, 105, 255], d2)"
  by (rule vigenere_roundtrip) (simp_all add: key_ok_def py_upper_def)

text \<open>C7: with a non-empty key of Latin-1 characters other than \<open>\<ss>\<close>, character
  \<open>j\<close> of the output is \<open>(c + s) mod 256\<close> (encrypting) or \<open>(c - s) mod 256\<close>
  (decrypting), where \<open>c\<close> is input character \<open>j\<close> and
  \<open>s = ord(upper(key[j mod len(key)])) - 65\<close>: the key index advances once per input
  character, whatever the character is.\<close>

theorem vigenere_result:
  assumes "key \<noteq> []" and "\<forall>k\<in>set key. k < 256 \<and> k \<noteq> 223"
  shows "\<exists>details. vigenere_process text key encrypt =
           Inr (map (\<lambda>(j, c). nat ((if encrypt then int c + key_shift key j
                                     else int c - key_shift key j) mod 256))
                  (enumerate 0 text), details)"
proof -
  have "key_ok key" using assms key_ok_latin1 [of key] by blast
  then show ?thesis by (simp add: vigenere_process_key_ok vig_spec_def vig_char_nat)
qed

theorem vigenere_result_witness:
  "\<exists>details. vigenere_process [104, 105, 33] [97, 66] True =
     Inr (map (\<lambda>(j, c). nat ((if True then int c + key_shift [97, 66] j
                               else int c - key_shift [97, 66] j) mod 256))
            (enumerate 0 [104, 105, 33]), details)"
  by (rule vigenere_result) simp_all

text \<open>C25: an empty key raises \<^verbatim>\<open>ZeroDivisionError\<close> as soon as there is a
  character to encrypt, and is accepted silently on the empty text; the function
  never reports an invalid key itself.\<close>

theorem vigenere_empty_key:
  "vigenere_process text [] encrypt =
     (if text = [] then Inr ([], [VigHeader [] 0]) else Inl ZeroDivisionError)"
  by (cases "text") (simp_all add: vigenere_process_def)

text \<open>C26: for a non-empty key of Latin-1 characters no longer than the text, the
  call succeeds exactly when the key has no \<open>\<ss>\<close> (223), whose upper case
  \<^verbatim>\<open>SS\<close> makes \<^verbatim>\<open>ord\<close> raise \<^verbatim>\<open>TypeError\<close>.\<close>

theorem vigenere_success_iff:
  assumes "key \<noteq> []" and "length key \<le> length text" and "\<forall>k\<in>set key. k < 256"
  shows "(\<exists>r. vigenere_process text key encrypt = Inr r) \<longleftrightarrow> 223 \<notin> set key"
proof -
  have "(\<forall>j<length text. length (py_upper (key ! (j mod length key))) = 1) \<longleftrightarrow>
        (\<forall>i<length key. length (py_upper (key ! i)) = 1)"
  proof
    assume "\<forall>j<length text. length (py_upper (key ! (j mod length key))) = 1"
    with assms(2) show "\<forall>i<length key. length (py_upper (key ! i)) = 1"
      by (metis less_le_trans mod_less)
  next
    assume "\<forall>i<length key. length (py_upper (key ! i)) = 1"
    with assms(1) show "\<forall>j<length text. length (py_upper (key ! (j mod length key))) = 1"
      by simp
  qed
  then have "(\<exists>r. vigenere_process text key encrypt = Inr r) \<longleftrightarrow> key_ok key"
    unfolding vigenere_process_Inr_iff vig_loop_Inr_iff [OF assms(1)]
    using assms(1) by (simp add: key_ok_def list_all_length)
  then show ?thesis using key_ok_latin1 [OF assms(1,3)] by simp
qed

theorem vigenere_success_iff_witness:
  "\<not> (\<exists>r. vigenere_process [104, 105] [97, 223] True = Inr r)"
  using vigenere_success_iff [of "[97, 223]" "[104, 105]" True] by simp

text \<open>C28: a key of ASCII letters is accepted, its shifts lie in 0..25, and they do
  not depend on the letters' case.\<close>

theorem vigenere_ascii_key:
  assumes "key \<noteq> []" and "\<forall>k\<in>set key. 65 \<le> k \<and> k \<le> 90 \<or> 97 \<le> k \<and> k \<le> 122"
  shows "key_ok key \<and> (\<forall>j. 0 \<le> key_shift key j \<and> key_shift key j \<le> 25) \<and>
         (\<forall>j. key_shift (map (\<lambda>k. if 65 \<le> k \<and> k \<le> 90 then k + 32 else k) key) j =
              key_shift key j)"
proof -
  have up: "\<And>k. 65 \<le> k \<and> k \<le> 90 \<or> 97 \<le> k \<and> k \<le> 122 \<Longrightarrow>
              py_upper k = [if k \<le> 90 then k else k - 32]"
    by (auto simp: py_upper_def)
  have mem: "\<And>j. key ! (j mod length key) \<in> set key"
    using assms(1) by simp
  show ?thesis
    using assms up mem
    by (auto simp: key_ok_def list_all_iff key_shift_def up py_upper_def)
qed

theorem vigenere_ascii_key_witness:
  "key_ok [114, 65] \<and> 0 \<le> key_shift [114, 65] 3 \<and> key_shift [114, 65] 3 \<le> 25 \<and>
   key_shift [114, 97] 3 = key_shift [114, 65] 3"
proof -
  have "key_ok [114, 65] \<and> (\<forall>j. 0 \<le> key_shift [114, 65] j \<and> key_shift [114, 65] j \<le> 25) \<and>
        (\<forall>j. key_shift (map (\<lambda>k. if 65 \<le> k \<and> k \<le> 90 then k + 32 else k) [114, 65]) j =
             key_shift [114, 65] j)"
    by (rule vigenere_ascii_key) simp_all
  moreover have "map (\<lambda>k. if 65 \<le> k \<and> k \<le> 90 then k + 32 else k) [114, 65 :: nat] = [114, 97]"
    by simp
  ultimately show ?thesis by metis
qed

text \<open>C29: the Vigenere trace holds the key line, one entry per character for at
  most the first 20 characters, and a count of the rest: at most 22 entries.\<close>

theorem vigenere_trace_bounded:
  assumes "key_ok key"
  shows "\<exists>r d. vigenere_process text key encrypt = Inr (r, d) \<and>
           length d = 1 + min 20 (length text) + (if 20 < length text then 1 else 0) \<and>
           length d \<le> 22"
  using assms by (simp add: vigenere_process_key_ok)

theorem vigenere_trace_bounded_witness:
  "\<exists>r d. vigenere_process (replicate 25 65) [66] False = Inr (r, d) \<and>
     length d = 1 + min 20 (length (replicate 25 (65::nat))) +
                (if 20 < length (replicate 25 (65::nat)) then 1 else 0) \<and> length d \<le> 22"
  by (rule vigenere_trace_bounded) (simp add: key_ok_def py_upper_def)

end
