(* ===== verification/Lfsr.thy ===== *)
theory Lfsr
  imports Prelude
begin

unbundle bit_operations_syntax

text \<open>
  The stream stage, \<^verbatim>\<open>lfsr_cipher\<close> (lines 71--113). The register is a
  Python list of bits, initialised from \<^verbatim>\<open>bin(seed)[2:].zfill(8)\<close>
  (most significant bit first). Each step emits the last bit, computes the XOR of
  the bits at the tap indices (Python indexing, so negative taps count from the end
  and others out of range raise \<^verbatim>\<open>IndexError\<close>), and shifts the feedback in
  at the front. After \<open>8 * len(text)\<close> steps the bits are grouped eight at a
  time, most significant first, into key bytes, and character \<open>i\<close> is XORed with
  key byte \<open>i\<close>. The trace keeps the first 15 register steps and the first 15
  XOR operations.
\<close>

type_synonym register = "nat list"

subsection \<open>Register initialisation\<close>

text \<open>The digits of \<^verbatim>\<open>bin(n)[2:]\<close> for \<open>n \<ge> 0\<close>, most significant first
  (\<^verbatim>\<open>bin(0)\<close> is \<^verbatim>\<open>'0b0'\<close>).\<close>

fun bin_digits :: "nat \<Rightarrow> nat list" where
  "bin_digits n = (if n < 2 then [n] else bin_digits (n div 2) @ [n mod 2])"

declare bin_digits.simps [simp del]

definition zfill :: "nat \<Rightarrow> nat list \<Rightarrow> nat list" where
  "zfill w ds = replicate (w - length ds) 0 @ ds"

text \<open>For a negative seed \<^verbatim>\<open>bin\<close> starts with \<^verbatim>\<open>-0b\<close>, so the slice keeps
  the letter \<^verbatim>\<open>b\<close> and \<^verbatim>\<open>int('b')\<close> raises \<^verbatim>\<open>ValueError\<close>.\<close>

definition lfsr_init :: "int \<Rightarrow> py_error + register" where
  "lfsr_init seed = (if seed < 0 then Inl ValueError else Inr (zfill 8 (bin_digits (nat seed))))"

subsection \<open>One register step\<close>

text \<open>\<^verbatim>\<open>feedback = 0; for tap in taps: feedback ^= state[tap]\<close>\<close>

fun tap_feedback :: "register \<Rightarrow> int list \<Rightarrow> nat \<Rightarrow> py_error + nat" where
  "tap_feedback state [] feedback = Inr feedback"
| "tap_feedback state (t # ts) feedback =
     sbind (py_index state t) (\<lambda>b. tap_feedback state ts (feedback XOR b))"

text \<open>The body of the loop of lines 76--84: the emitted bit \<^verbatim>\<open>state[-1]\<close>
  and the next state \<^verbatim>\<open>[feedback] + state[:-1]\<close>.\<close>

definition lfsr_step :: "int list \<Rightarrow> register \<Rightarrow> py_error + nat \<times> register" where
  "lfsr_step taps state =
     sbind (py_index state (-1)) (\<lambda>output_bit.
     sbind (tap_feedback state taps 0) (\<lambda>feedback.
       Inr (output_bit, feedback # butlast state)))"

datatype lfsr_detail =
    LfsrInitial register               \<comment> \<open>\<^verbatim>\<open>Initial State: ...\<close>\<close>
  | LfsrStep nat register nat          \<comment> \<open>\<^verbatim>\<open>Step i+1: state -> bit: b\<close>\<close>
  | LfsrMoreSteps nat                  \<comment> \<open>\<^verbatim>\<open>... +n more steps\<close>\<close>
  | LfsrXorHeader                      \<comment> \<open>\<^verbatim>\<open>XOR Process (8 bits = 1 byte per char):\<close>\<close>
  | LfsrXor codepoint "nat list" nat nat  \<comment> \<open>char, its 8 key bits, key byte, result\<close>
  | LfsrMoreChars nat                  \<comment> \<open>\<^verbatim>\<open>... +n more characters\<close>\<close>

text \<open>The keystream loop, \<^verbatim>\<open>for i in range(len(text) * 8)\<close>: \<open>n\<close> steps remain,
  \<open>i\<close> counts the steps done.\<close>

fun lfsr_gen ::
  "int list \<Rightarrow> nat \<Rightarrow> nat \<Rightarrow> register \<Rightarrow> nat list \<Rightarrow> lfsr_detail list
     \<Rightarrow> py_error + register \<times> nat list \<times> lfsr_detail list" where
  "lfsr_gen taps i 0 state bits details = Inr (state, bits, details)"
| "lfsr_gen taps i (Suc n) state bits details =
     sbind (lfsr_step taps state) (\<lambda>(output_bit, state').
       lfsr_gen taps (Suc i) n state' (bits @ [output_bit])
         (if i < 15 then details @ [LfsrStep (Suc i) state' output_bit] else details))"

text \<open>\<^verbatim>\<open>for j in range(8): key_byte = (key_byte << 1) | keystream_bits[start_bit + j]\<close>\<close>

definition key_byte_at :: "nat list \<Rightarrow> nat \<Rightarrow> nat" where
  "key_byte_at bits start_bit = fold (\<lambda>j kb. push_bit 1 kb OR bits ! (start_bit + j)) [0..<8] 0"

text \<open>The XOR loop of lines 95--108.\<close>

fun lfsr_xor ::
  "nat list \<Rightarrow> nat \<Rightarrow> pystr \<Rightarrow> pystr \<Rightarrow> lfsr_detail list \<Rightarrow> pystr \<times> lfsr_detail list" where
  "lfsr_xor bits i [] result details = (result, details)"
| "lfsr_xor bits i (c # cs) result details =
     (let start_bit = i * 8;
          key_byte = key_byte_at bits start_bit;
          encrypted_val = c XOR key_byte
      in lfsr_xor bits (Suc i) cs (result @ [encrypted_val])
           (if i < 15 then details @ [LfsrXor c (take 8 (drop start_bit bits)) key_byte encrypted_val]
            else details))"

definition lfsr_cipher :: "pystr \<Rightarrow> int \<Rightarrow> int list \<Rightarrow> py_error + pystr \<times> lfsr_detail list" where
  "lfsr_cipher text seed taps =
     sbind (lfsr_init seed) (\<lambda>state.
     sbind (lfsr_gen taps 0 (length text * 8) state [] [LfsrInitial state]) (\<lambda>(state', bits, details).
       let details1 = (if 15 < length text * 8
                       then details @ [LfsrMoreSteps (length text * 8 - 15)] else details)
                      @ [LfsrXorHeader];
           (result, details2) = lfsr_xor bits 0 text [] details1
       in Inr (result,
               if 15 < length text then details2 @ [LfsrMoreChars (length text - 15)] else details2)))"

subsection \<open>Reference functions\<close>

text \<open>Python's \<^verbatim>\<open>xs[t]\<close> for an index known to be in range.\<close>

definition py_nth :: "'a list \<Rightarrow> int \<Rightarrow> 'a" where
  "py_nth xs t = (if 0 \<le> t then xs ! nat t else xs ! nat (int (length xs) + t))"

definition taps_in_range :: "nat \<Rightarrow> int list \<Rightarrow> bool" where
  "taps_in_range n taps \<longleftrightarrow> list_all (\<lambda>t. - int n \<le> t \<and> t < int n) taps"

text \<open>A register is a list of bits 0 and 1.\<close>

definition reg_ok :: "register \<Rightarrow> bool" where
  "reg_ok st \<longleftrightarrow> list_all (\<lambda>b. b \<le> 1) st"

definition feedback_of :: "int list \<Rightarrow> register \<Rightarrow> nat" where
  "feedback_of taps st = fold (\<lambda>t fb. fb XOR py_nth st t) taps 0"

definition lfsr_next :: "int list \<Rightarrow> register \<Rightarrow> register" where
  "lfsr_next taps st = feedback_of taps st # butlast st"

text \<open>The bits emitted by \<open>n\<close> steps, and the register after them.\<close>

fun lfsr_bits :: "int list \<Rightarrow> nat \<Rightarrow> register \<Rightarrow> nat list" where
  "lfsr_bits taps 0 st = []"
| "lfsr_bits taps (Suc n) st = last st # lfsr_bits taps n (lfsr_next taps st)"

fun lfsr_state :: "int list \<Rightarrow> nat \<Rightarrow> register \<Rightarrow> register" where
  "lfsr_state taps 0 st = st"
| "lfsr_state taps (Suc n) st = lfsr_state taps n (lfsr_next taps st)"

fun lfsr_step_trace :: "int list \<Rightarrow> nat \<Rightarrow> nat \<Rightarrow> register \<Rightarrow> lfsr_detail list" where
  "lfsr_step_trace taps k 0 st = []"
| "lfsr_step_trace taps k (Suc n) st =
     LfsrStep k (lfsr_next taps st) (last st) # lfsr_step_trace taps (Suc k) n (lfsr_next taps st)"

text \<open>A list of bits read most significant first.\<close>

definition bits_val :: "nat list \<Rightarrow> nat" where
  "bits_val bs = fold (\<lambda>b acc. 2 * acc + b) bs 0"

text \<open>Key byte \<open>i\<close>: the eight bits emitted from step \<open>8 i\<close> on.\<close>

definition ks_byte :: "int list \<Rightarrow> register \<Rightarrow> nat \<Rightarrow> nat" where
  "ks_byte taps st i = bits_val (lfsr_bits taps 8 (lfsr_state taps (8 * i) st))"

subsection \<open>Register lemmas\<close>

lemma tap_feedback_in_range:
  "taps_in_range (length st) taps \<Longrightarrow>
     tap_feedback st taps fb = Inr (fold (\<lambda>t fb. fb XOR py_nth st t) taps fb)"
proof (induction taps arbitrary: fb)
  case Nil
  then show ?case by simp
next
  case (Cons t ts)
  then have "py_index st t = Inr (py_nth st t)"
    by (auto simp: taps_in_range_def py_index_def py_nth_def Let_def)
  with Cons show ?case by (simp add: taps_in_range_def)
qed

lemma lfsr_step_in_range:
  "st \<noteq> [] \<Longrightarrow> taps_in_range (length st) taps \<Longrightarrow>
     lfsr_step taps st = Inr (last st, lfsr_next taps st)"
  by (simp add: lfsr_step_def tap_feedback_in_range feedback_of_def lfsr_next_def)

lemma length_lfsr_next [simp]: "st \<noteq> [] \<Longrightarrow> length (lfsr_next taps st) = length st"
  by (simp add: lfsr_next_def)

lemma lfsr_next_nonempty [simp]: "lfsr_next taps st \<noteq> []"
  by (simp add: lfsr_next_def)

lemma lfsr_gen_in_range:
  assumes "st \<noteq> []" and "taps_in_range (length st) taps"
  shows "lfsr_gen taps i n st bits details =
           Inr (lfsr_state taps n st, bits @ lfsr_bits taps n st,
                details @ take (15 - i) (lfsr_step_trace taps (Suc i) n st))"
  using assms
proof (induction n arbitrary: i st bits details)
  case 0
  then show ?case by simp
next
  case (Suc n)
  then show ?case
    by (cases "i < 15") (simp_all add: lfsr_step_in_range take_Cons')
qed

lemma push_bit_or_bit:
  assumes "(b :: nat) \<le> 1"
  shows "push_bit 1 k OR b = 2 * k + b"
proof -
  from assms consider "b = 0" | "b = 1" by linarith
  then show ?thesis
  proof cases
    case 1
    then show ?thesis by (simp add: push_bit_eq_mult)
  next
    case 2
    have "push_bit 1 k OR 1 = push_bit 1 k + of_bool (even (push_bit 1 k))"
      by (rule or_one_eq)
    with 2 show ?thesis by (simp add: push_bit_eq_mult)
  qed
qed

lemma xor_bit_le:
  "(a :: nat) \<le> 1 \<Longrightarrow> b \<le> 1 \<Longrightarrow> a XOR b \<le> 1"
  by (auto simp: le_Suc_eq)

lemma py_nth_in_set:
  "- int (length xs) \<le> t \<Longrightarrow> t < int (length xs) \<Longrightarrow> py_nth xs t \<in> set xs"
  by (auto simp: py_nth_def)

lemma fold_xor_bits_le:
  fixes st :: register
  assumes "fb \<le> 1" and "\<forall>t\<in>set ts. py_nth st t \<le> 1"
  shows "fold (\<lambda>t fb. fb XOR py_nth st t) ts fb \<le> 1"
  using assms
proof (induction ts arbitrary: fb)
  case Nil
  then show ?case by simp
next
  case (Cons t ts)
  have "py_nth st t \<le> 1"
    using Cons.prems(2) by simp
  with Cons.prems(1) have "fb XOR py_nth st t \<le> 1"
    by (rule xor_bit_le)
  then have "fold (\<lambda>t fb. fb XOR py_nth st t) ts (fb XOR py_nth st t) \<le> 1"
    by (rule Cons.IH) (use Cons.prems(2) in simp)
  then show ?case by simp
qed

lemma reg_ok_feedback:
  assumes "reg_ok st" and "taps_in_range (length st) taps"
  shows "feedback_of taps st \<le> 1"
  unfolding feedback_of_def
proof (rule fold_xor_bits_le)
  show "(0::nat) \<le> 1" by simp
  show "\<forall>t\<in>set taps. py_nth st t \<le> 1"
    using assms py_nth_in_set [of st] by (auto simp: reg_ok_def taps_in_range_def list_all_iff)
qed

lemma reg_ok_lfsr_next:
  assumes "reg_ok st" and "taps_in_range (length st) taps"
  shows "reg_ok (lfsr_next taps st)"
proof -
  have "feedback_of taps st \<le> 1"
    using assms by (rule reg_ok_feedback)
  with assms(1) show ?thesis
    by (auto simp: lfsr_next_def reg_ok_def list_all_iff dest: in_set_butlastD)
qed

lemma lfsr_state_invariant:
  assumes "st \<noteq> []" and "reg_ok st" and "taps_in_range (length st) taps"
  shows "lfsr_state taps n st \<noteq> [] \<and> length (lfsr_state taps n st) = length st \<and>
         reg_ok (lfsr_state taps n st)"
  using assms
  by (induction n arbitrary: st) (simp_all add: reg_ok_lfsr_next)

lemma length_lfsr_bits [simp]: "length (lfsr_bits taps n st) = n"
  by (induction n arbitrary: st) simp_all

lemma lfsr_bits_add:
  "lfsr_bits taps (m + n) st = lfsr_bits taps m st @ lfsr_bits taps n (lfsr_state taps m st)"
  by (induction m arbitrary: st) simp_all

lemma lfsr_state_add:
  "lfsr_state taps (m + n) st = lfsr_state taps n (lfsr_state taps m st)"
  by (induction m arbitrary: st) simp_all

lemma lfsr_bits_ok:
  assumes "st \<noteq> []" and "reg_ok st" and "taps_in_range (length st) taps"
  shows "\<forall>b\<in>set (lfsr_bits taps n st). b \<le> 1"
  using assms
proof (induction n arbitrary: st)
  case 0
  then show ?case by simp
next
  case (Suc n)
  then have "last st \<le> 1" by (simp add: reg_ok_def list_all_iff)
  moreover have "\<forall>b\<in>set (lfsr_bits taps n (lfsr_next taps st)). b \<le> 1"
    by (rule Suc.IH) (simp_all add: Suc.prems reg_ok_lfsr_next)
  ultimately show ?case by simp
qed

lemma bits_val_append:
  "bits_val (xs @ ys) = bits_val xs * 2 ^ length ys + bits_val ys"
proof -
  have "fold (\<lambda>b acc. 2 * acc + b) zs a = a * 2 ^ length zs + fold (\<lambda>b acc. 2 * acc + b) zs 0"
    for zs and a :: nat
  proof (induction zs arbitrary: a)
    case Nil
    then show ?case by simp
  next
    case (Cons b zs)
    have "fold (\<lambda>b acc. 2 * acc + b) zs (2 * a + b) =
            (2 * a + b) * 2 ^ length zs + fold (\<lambda>b acc. 2 * acc + b) zs 0"
      by (rule Cons.IH)
    moreover have "fold (\<lambda>b acc. 2 * acc + b) zs b = b * 2 ^ length zs + fold (\<lambda>b acc. 2 * acc + b) zs 0"
      by (rule Cons.IH)
    ultimately show ?case by (simp add: distrib_right power_Suc)
  qed
  from this [of ys "bits_val xs"] show ?thesis by (simp add: bits_val_def)
qed

lemma bits_val_Nil [simp]: "bits_val [] = 0"
  by (simp add: bits_val_def)

lemma bits_val_single [simp]: "bits_val [b] = b"
  by (simp add: bits_val_def)

lemma bits_val_Cons:
  "bits_val (b # bs) = b * 2 ^ length bs + bits_val bs"
  using bits_val_append [of "[b]" bs] by (simp add: bits_val_def)

lemma bits_val_lt:
  "\<forall>b\<in>set bs. b \<le> 1 \<Longrightarrow> bits_val bs < 2 ^ length bs"
proof (induction bs rule: rev_induct)
  case Nil
  then show ?case by (simp add: bits_val_def)
next
  case (snoc b bs)
  then have "bits_val bs < 2 ^ length bs" and "b \<le> 1" by simp_all
  then show ?case by (simp add: bits_val_append)
qed

lemma key_byte_at_bits_val:
  assumes "\<forall>b\<in>set bits. b \<le> 1" and "s + 8 \<le> length bits"
  shows "key_byte_at bits s = bits_val (take 8 (drop s bits))"
proof -
  have take: "map (\<lambda>j. bits ! (s + j)) [0..<8] = take 8 (drop s bits)"
    using assms(2) by (intro nth_equalityI) simp_all
  have ok: "\<forall>b\<in>set (take 8 (drop s bits)). b \<le> 1"
    using assms(1) by (auto dest: in_set_takeD in_set_dropD)
  have step: "fold (\<lambda>b kb. push_bit 1 kb OR b) bs = fold (\<lambda>b acc. 2 * acc + b) bs"
    if "\<forall>b\<in>set bs. b \<le> 1" for bs :: "nat list"
    using that by (intro fold_cong refl ext push_bit_or_bit) auto
  have "key_byte_at bits s = fold (\<lambda>b kb. push_bit 1 kb OR b) (map (\<lambda>j. bits ! (s + j)) [0..<8]) 0"
    unfolding key_byte_at_def fold_map comp_def ..
  also have "\<dots> = fold (\<lambda>b acc. 2 * acc + b) (take 8 (drop s bits)) 0"
    unfolding take step [OF ok] ..
  finally show ?thesis
    unfolding bits_val_def .
qed

lemma lfsr_xor_result:
  "lfsr_xor bits i cs result details =
     (result @ map (\<lambda>(j, c). c XOR key_byte_at bits (j * 8)) (enumerate i cs),
      details @ map (\<lambda>(j, c). LfsrXor c (take 8 (drop (j * 8) bits)) (key_byte_at bits (j * 8))
                                  (c XOR key_byte_at bits (j * 8)))
                    (take (15 - i) (enumerate i cs)))"
proof (induction cs arbitrary: i result details)
  case Nil
  then show ?case by simp
next
  case (Cons c cs)
  then show ?case
    by (cases "i < 15") (simp_all add: Let_def take_Cons')
qed

subsection \<open>Register initialisation\<close>

lemma bin_digits_ok: "\<forall>d\<in>set (bin_digits n). d \<le> 1"
proof (induction n rule: bin_digits.induct)
  case (1 n)
  then show ?case
    by (subst bin_digits.simps) auto
qed

lemma bin_digits_nonempty: "bin_digits n \<noteq> []"
  by (subst bin_digits.simps) simp

lemma bits_val_bin_digits: "bits_val (bin_digits n) = n"
proof (induction n rule: bin_digits.induct)
  case (1 n)
  then show ?case
    by (subst bin_digits.simps) (simp add: bits_val_append)
qed

lemma length_bin_digits_le:
  "n < 2 ^ k \<Longrightarrow> 0 < k \<Longrightarrow> length (bin_digits n) \<le> k"
proof (induction n arbitrary: k rule: bin_digits.induct)
  case (1 n)
  show ?case
  proof (cases "n < 2")
    case True
    with "1.prems" show ?thesis by (subst bin_digits.simps) simp
  next
    case False
    have "\<not> k \<le> 1"
    proof
      assume "k \<le> 1"
      then have "(2::nat) ^ k \<le> 2 ^ 1" by (rule power_increasing) simp
      with "1.prems"(1) False show False by simp
    qed
    then obtain k' where k: "k = Suc k'" and "0 < k'"
      by (cases k) auto
    with "1.prems" have "n div 2 < 2 ^ k'" by auto
    with "1.IH" [OF False] \<open>0 < k'\<close> have "length (bin_digits (n div 2)) \<le> k'" by blast
    with False k show ?thesis by (subst bin_digits.simps) simp
  qed
qed

lemma length_zfill [simp]: "length (zfill w ds) = max w (length ds)"
  by (simp add: zfill_def)

lemma bits_val_zfill: "bits_val (zfill w ds) = bits_val ds"
proof -
  have "bits_val (replicate m 0) = 0" for m
    by (induction m) (simp_all add: bits_val_Cons)
  then show ?thesis by (simp add: zfill_def bits_val_append)
qed

text \<open>The register \<^verbatim>\<open>lfsr_cipher\<close> starts from, for a non-negative seed.\<close>

definition reg0 :: "int \<Rightarrow> register" where
  "reg0 seed = zfill 8 (bin_digits (nat seed))"

lemma lfsr_init_reg0: "0 \<le> seed \<Longrightarrow> lfsr_init seed = Inr (reg0 seed)"
  by (simp add: lfsr_init_def reg0_def)

lemma reg0_ok: "reg_ok (reg0 seed)"
  using bin_digits_ok by (auto simp: reg0_def zfill_def reg_ok_def list_all_iff)

lemma length_reg0: "8 \<le> length (reg0 seed)"
  by (simp add: reg0_def)

lemma length_reg0_byte: "0 \<le> seed \<Longrightarrow> seed < 256 \<Longrightarrow> length (reg0 seed) = 8"
  using length_bin_digits_le [of "nat seed" 8] by (simp add: reg0_def)

lemma bits_val_reg0: "0 \<le> seed \<Longrightarrow> bits_val (reg0 seed) = nat seed"
  by (simp add: reg0_def bits_val_zfill bits_val_bin_digits)

lemma taps_in_range_mono:
  "taps_in_range m taps \<Longrightarrow> m \<le> n \<Longrightarrow> taps_in_range n taps"
  by (auto simp: taps_in_range_def list_all_iff)

lemma reg0_nonempty: "reg0 seed \<noteq> []"
  using length_reg0 [of seed] by auto

subsection \<open>The cipher as XOR with the key bytes\<close>

lemma take_drop_lfsr_bits:
  assumes "8 * i + 8 \<le> n"
  shows "take 8 (drop (8 * i) (lfsr_bits taps n st)) = lfsr_bits taps 8 (lfsr_state taps (8 * i) st)"
proof -
  from assms obtain r where n: "n = 8 * i + (8 + r)"
    by (metis add.assoc le_iff_add)
  show ?thesis
    unfolding n lfsr_bits_add by simp
qed

lemma key_byte_at_ks_byte:
  assumes "st \<noteq> []" and "reg_ok st" and "taps_in_range (length st) taps" and "j < m"
  shows "key_byte_at (lfsr_bits taps (m * 8) st) (j * 8) = ks_byte taps st j"
proof -
  have le: "8 * j + 8 \<le> m * 8" using assms(4) by simp
  have "key_byte_at (lfsr_bits taps (m * 8) st) (j * 8) =
          bits_val (take 8 (drop (8 * j) (lfsr_bits taps (m * 8) st)))"
    using lfsr_bits_ok [OF assms(1-3)] le by (simp add: key_byte_at_bits_val mult.commute)
  also have "\<dots> = ks_byte taps st j"
    using le by (simp add: take_drop_lfsr_bits ks_byte_def)
  finally show ?thesis .
qed

lemma lfsr_cipher_in_range:
  assumes "0 \<le> seed" and "taps_in_range 8 taps"
  shows "\<exists>details. lfsr_cipher text seed taps =
           Inr (map (\<lambda>(i, c). c XOR ks_byte taps (reg0 seed) i) (enumerate 0 text), details)"
proof -
  let ?st = "reg0 seed"
  have tr: "taps_in_range (length ?st) taps"
    using assms(2) length_reg0 by (rule taps_in_range_mono)
  have "map (\<lambda>(j, c). c XOR key_byte_at (lfsr_bits taps (length text * 8) ?st) (j * 8)) (enumerate 0 text) =
        map (\<lambda>(i, c). c XOR ks_byte taps ?st i) (enumerate 0 text)"
    using key_byte_at_ks_byte [OF reg0_nonempty reg0_ok tr]
    by (intro map_cong refl) (auto simp: in_set_enumerate_eq)
  then show ?thesis
    using assms(1)
    by (simp add: lfsr_cipher_def lfsr_init_reg0 lfsr_gen_in_range [OF reg0_nonempty tr]
                  lfsr_xor_result split_def Let_def)
qed

lemma xor_enumerate_involution:
  "map (\<lambda>(i, c). c XOR f i) (enumerate 0 (map (\<lambda>(i, c). c XOR f i) (enumerate 0 text))) = (text :: nat list)"
  by (rule nth_equalityI) (simp_all add: nth_enumerate_eq xor.assoc)

lemma ks_byte_lt:
  assumes "st \<noteq> []" and "reg_ok st" and "taps_in_range (length st) taps"
  shows "ks_byte taps st i < 256"
proof -
  have st: "lfsr_state taps (8 * i) st \<noteq> [] \<and> length (lfsr_state taps (8 * i) st) = length st \<and>
            reg_ok (lfsr_state taps (8 * i) st)"
    using assms by (rule lfsr_state_invariant)
  then have "\<forall>b\<in>set (lfsr_bits taps 8 (lfsr_state taps (8 * i) st)). b \<le> 1"
    using assms(3) by (intro lfsr_bits_ok) simp_all
  then show ?thesis
    using bits_val_lt [of "lfsr_bits taps 8 (lfsr_state taps (8 * i) st)"] by (simp add: ks_byte_def)
qed

lemma tap_feedback_out_of_range:
  "\<not> taps_in_range (length st) taps \<Longrightarrow> tap_feedback st taps fb = Inl IndexError"
proof (induction taps arbitrary: fb)
  case Nil
  then show ?case by (simp add: taps_in_range_def)
next
  case (Cons t ts)
  show ?case
  proof (cases "- int (length st) \<le> t \<and> t < int (length st)")
    case True
    then have "py_index st t = Inr (py_nth st t)"
      by (auto simp: py_index_def py_nth_def Let_def)
    with True Cons show ?thesis by (simp add: taps_in_range_def)
  next
    case False
    then have "py_index st t = Inl IndexError"
      by (auto simp: py_index_def Let_def)
    then show ?thesis by simp
  qed
qed

lemma lfsr_cipher_out_of_range:
  assumes "0 \<le> seed" and "text \<noteq> []" and "\<not> taps_in_range (length (reg0 seed)) taps"
  shows "lfsr_cipher text seed taps = Inl IndexError"
proof -
  obtain n where n: "length text * 8 = Suc n"
    using assms(2) by (cases "text") auto
  have "lfsr_step taps (reg0 seed) = Inl IndexError"
    using reg0_nonempty [of seed] tap_feedback_out_of_range [OF assms(3)]
    by (simp add: lfsr_step_def)
  then show ?thesis
    using assms(1) by (simp add: lfsr_cipher_def lfsr_init_reg0 n)
qed

lemma lfsr_cipher_length:
  "lfsr_cipher text seed taps = Inr (r, d) \<Longrightarrow> length r = length text"
  by (auto simp: lfsr_cipher_def sbind_def lfsr_xor_result Let_def split_def split: sum.splits)

lemma xor_byte: "(a::nat) < 256 \<Longrightarrow> b < 256 \<Longrightarrow> a XOR b < 256"
proof -
  assume a: "a < 256" and b: "b < 256"
  have "int a XOR int b < 2 ^ 8"
    by (rule XOR_upper) (use a b in simp_all)
  then show ?thesis by (simp add: of_nat_xor_eq [symmetric])
qed

lemma lfsr_cipher_bytes:
  assumes "lfsr_cipher text seed taps = Inr (r, d)" and "taps_in_range 8 taps"
    and "\<forall>c\<in>set text. c < 256"
  shows "\<forall>c\<in>set r. c < 256"
proof -
  have "0 \<le> seed"
  proof (rule ccontr)
    assume "\<not> 0 \<le> seed"
    then show False using assms(1) by (simp add: lfsr_cipher_def lfsr_init_def)
  qed
  then obtain d' where "lfsr_cipher text seed taps =
      Inr (map (\<lambda>(i, c). c XOR ks_byte taps (reg0 seed) i) (enumerate 0 text), d')"
    using lfsr_cipher_in_range assms(2) by blast
  with assms(1) have "r = map (\<lambda>(i, c). c XOR ks_byte taps (reg0 seed) i) (enumerate 0 text)"
    by simp
  moreover have "ks_byte taps (reg0 seed) i < 256" for i
    using ks_byte_lt [OF reg0_nonempty reg0_ok taps_in_range_mono [OF assms(2) length_reg0]] .
  ultimately show ?thesis
    using assms(3) by (auto simp: in_set_enumerate_eq intro!: xor_byte)
qed

subsection \<open>Properties\<close>

text \<open>C3: the stream stage is its own inverse: for a non-negative seed and taps that
  index the 8-bit register, applying \<^verbatim>\<open>lfsr_cipher\<close> twice with the same seed and
  taps gives back the text, for every code point (the XOR touches only the low
  eight bits).\<close>

theorem lfsr_self_inverse:
  assumes "0 \<le> seed" and "taps_in_range 8 taps"
  shows "\<exists>ct d1 d2. lfsr_cipher text seed taps = Inr (ct, d1) \<and>
                   lfsr_cipher ct seed taps = Inr (text, d2)"
proof -
  let ?f = "\<lambda>txt. map (\<lambda>(i, c). c XOR ks_byte taps (reg0 seed) i) (enumerate 0 txt)"
  obtain d1 where 1: "lfsr_cipher text seed taps = Inr (?f text, d1)"
    using lfsr_cipher_in_range [OF assms] by blast
  obtain d2 where 2: "lfsr_cipher (?f text) seed taps = Inr (?f (?f text), d2)"
    using lfsr_cipher_in_range [OF assms] by blast
  show ?thesis
    using 1 2 by (simp add: xor_enumerate_involution)
qed

theorem lfsr_self_inverse_witness:
  "\<exists>ct d1 d2. lfsr_cipher [104, 105, 1000] 42 [0, 2, 3, 4] = Inr (ct, d1) \<and>
              lfsr_cipher ct 42 [0, 2, 3, 4] = Inr ([104, 105, 1000], d2)"
  by (rule lfsr_self_inverse) (simp_all add: taps_in_range_def)

text \<open>C6: for a non-negative seed and taps inside the 8-bit register, character
  \<open>i\<close> of the output is character \<open>i\<close> of the input XOR key byte \<open>i\<close>, where key
  byte \<open>i\<close> is the eight bits the register emits in steps \<open>8 i\<close> to \<open>8 i + 7\<close>,
  most significant first; every key byte is below 256 and the output has the
  input's length.\<close>

theorem lfsr_cipher_result:
  assumes "0 \<le> seed" and "taps_in_range 8 taps"
  shows "(\<exists>details. lfsr_cipher text seed taps =
            Inr (map (\<lambda>(i, c). c XOR bits_val (lfsr_bits taps 8 (lfsr_state taps (8 * i) (reg0 seed))))
                   (enumerate 0 text), details)) \<and>
         (\<forall>i. bits_val (lfsr_bits taps 8 (lfsr_state taps (8 * i) (reg0 seed))) < 256)"
proof -
  have tr: "taps_in_range (length (reg0 seed)) taps"
    using assms(2) length_reg0 by (rule taps_in_range_mono)
  show ?thesis
    using lfsr_cipher_in_range [OF assms] ks_byte_lt [OF reg0_nonempty reg0_ok tr]
    by (simp add: ks_byte_def)
qed

theorem lfsr_cipher_result_witness:
  "(\<exists>details. lfsr_cipher [0, 0] 42 [0, 2, 3, 4] =
      Inr (map (\<lambda>(i, c). c XOR bits_val (lfsr_bits [0, 2, 3, 4] 8 (lfsr_state [0, 2, 3, 4] (8 * i) (reg0 42))))
             (enumerate 0 [0, 0]), details)) \<and>
   (\<forall>i. bits_val (lfsr_bits [0, 2, 3, 4] 8 (lfsr_state [0, 2, 3, 4] (8 * i) (reg0 42))) < 256)"
  by (rule lfsr_cipher_result) (simp_all add: taps_in_range_def)

text \<open>C27: errors of the stream stage: a negative seed raises \<^verbatim>\<open>ValueError\<close>
  whatever the text; for a seed in 0..255 the call succeeds exactly when the text is
  empty or every tap indexes the 8-bit register, and otherwise raises
  \<^verbatim>\<open>IndexError\<close>. Nothing rejects seed 0 or an empty tap list.\<close>

theorem lfsr_errors:
  "(seed < 0 \<longrightarrow> lfsr_cipher text seed taps = Inl ValueError) \<and>
   (0 \<le> seed \<and> seed < 256 \<longrightarrow>
      ((\<exists>r. lfsr_cipher text seed taps = Inr r) \<longleftrightarrow> text = [] \<or> taps_in_range 8 taps) \<and>
      (text \<noteq> [] \<and> \<not> taps_in_range 8 taps \<longrightarrow> lfsr_cipher text seed taps = Inl IndexError))"
proof (intro conjI impI)
  assume "seed < 0"
  then show "lfsr_cipher text seed taps = Inl ValueError"
    by (simp add: lfsr_cipher_def lfsr_init_def)
next
  assume seed: "0 \<le> seed \<and> seed < 256"
  then have len: "length (reg0 seed) = 8" by (simp add: length_reg0_byte)
  show "(\<exists>r. lfsr_cipher text seed taps = Inr r) \<longleftrightarrow> text = [] \<or> taps_in_range 8 taps"
  proof
    assume r: "\<exists>r. lfsr_cipher text seed taps = Inr r"
    show "text = [] \<or> taps_in_range 8 taps"
    proof (rule ccontr)
      assume "\<not> (text = [] \<or> taps_in_range 8 taps)"
      then have "lfsr_cipher text seed taps = Inl IndexError"
        using lfsr_cipher_out_of_range seed len by simp
      with r show False by simp
    qed
  next
    assume "text = [] \<or> taps_in_range 8 taps"
    then show "\<exists>r. lfsr_cipher text seed taps = Inr r"
    proof
      assume "text = []"
      then show ?thesis
        using seed by (simp add: lfsr_cipher_def lfsr_init_reg0 split_def Let_def)
    next
      assume "taps_in_range 8 taps"
      then show ?thesis
        using lfsr_cipher_in_range [of seed taps "text"] seed by blast
    qed
  qed
next
  assume seed: "0 \<le> seed \<and> seed < 256" and bad: "text \<noteq> [] \<and> \<not> taps_in_range 8 taps"
  then have "length (reg0 seed) = 8" by (simp add: length_reg0_byte)
  with seed bad show "lfsr_cipher text seed taps = Inl IndexError"
    by (simp add: lfsr_cipher_out_of_range)
qed

theorem lfsr_errors_witness:
  "lfsr_cipher [1] (-1) [0] = Inl ValueError \<and> lfsr_cipher [1] 42 [8] = Inl IndexError \<and>
   (\<exists>r. lfsr_cipher [] 42 [8] = Inr r)"
proof -
  have n: "\<not> taps_in_range 8 [8]" by (simp add: taps_in_range_def)
  show ?thesis
    using lfsr_errors [of "-1" "[1]" "[0]"] lfsr_errors [of 42 "[1]" "[8]"] lfsr_errors [of 42 "[]" "[8]"] n
    by simp
qed

end
