(* ===== verification/Classifier.thy ===== *)
theory Classifier
  imports Prelude
begin

text \<open>
  The classifier \<^verbatim>\<open>detect_file_type\<close> (lines 6--25). It counts the characters
  outside the printable ASCII range 32..126 among the code points of the text, and
  computes the order-0 Shannon entropy of the bytes of the text's UTF-8 encoding
  (with \<^verbatim>\<open>errors='ignore'\<close>, so lone surrogates are dropped). The byte
  frequencies are a Python dict, modelled as an association list in insertion
  order (\<open>AList.update\<close> appends a new key at the end, as a dict does). The
  entropy is a real number: the model computes exactly what the float computation
  approximates. The empty text is \<^verbatim>\<open>"unknown"\<close>; otherwise the text is
  \<^verbatim>\<open>"encrypted"\<close> when the unusual ratio exceeds 0.3 or the entropy exceeds 7.0.
\<close>

datatype file_type = FtUnknown | FtEncrypted | FtPlaintext

text \<open>\<^verbatim>\<open>sum(1 for c in text if ord(c) < 32 or ord(c) > 126)\<close>\<close>

definition unusual_count :: "pystr \<Rightarrow> nat" where
  "unusual_count text = length (filter (\<lambda>c. c < 32 \<or> 126 < c) text)"

text \<open>UTF-8 encoding of one code point; surrogates (U+D800..U+DFFF) cannot be
  encoded and are skipped by \<^verbatim>\<open>errors='ignore'\<close>.\<close>

definition utf8_char :: "codepoint \<Rightarrow> nat list" where
  "utf8_char c =
     (if c < 0x80 then [c]
      else if c < 0x800 then [0xC0 + c div 64, 0x80 + c mod 64]
      else if 0xD800 \<le> c \<and> c \<le> 0xDFFF then []
      else if c < 0x10000 then [0xE0 + c div 4096, 0x80 + (c div 64) mod 64, 0x80 + c mod 64]
      else [0xF0 + c div 262144, 0x80 + (c div 4096) mod 64, 0x80 + (c div 64) mod 64,
            0x80 + c mod 64])"

definition utf8_encode :: "pystr \<Rightarrow> nat list" where
  "utf8_encode text = concat (map utf8_char text)"

text \<open>\<^verbatim>\<open>byte_counts[byte] = byte_counts.get(byte, 0) + 1\<close> over the encoded bytes.\<close>

definition count_bump :: "(nat \<times> nat) list \<Rightarrow> nat \<Rightarrow> (nat \<times> nat) list" where
  "count_bump m b = AList.update b ((case map_of m b of None \<Rightarrow> 0 | Some c \<Rightarrow> c) + 1) m"

definition byte_counts :: "nat list \<Rightarrow> (nat \<times> nat) list" where
  "byte_counts bs = fold (\<lambda>b m. count_bump m b) bs []"

text \<open>Lines 16--21: \<^verbatim>\<open>entropy -= p * np.log2(p)\<close> over the dict's values.\<close>

definition entropy :: "(nat \<times> nat) list \<Rightarrow> real" where
  "entropy counts =
     (let total = sum_list (map snd counts)
      in fold (\<lambda>count e. if 0 < count
                          then e - (real count / real total) * log 2 (real count / real total)
                          else e) (map snd counts) 0)"

definition detect_file_type :: "pystr \<Rightarrow> file_type" where
  "detect_file_type text =
     (if text = [] then FtUnknown
      else let ratio = real (unusual_count text) / real (length text);
               ent = entropy (byte_counts (utf8_encode text))
           in if 3 / 10 < ratio \<or> 7 < ent then FtEncrypted else FtPlaintext)"

subsection \<open>The byte-count dictionary\<close>

text \<open>The keys in order of first occurrence.\<close>

definition first_occ :: "'a list \<Rightarrow> 'a list" where
  "first_occ xs = rev (remdups (rev xs))"

lemma update_map_pairs:
  "distinct ks \<Longrightarrow>
   AList.update k v (map (\<lambda>x. (x, f x)) ks) =
     (if k \<in> set ks then map (\<lambda>x. (x, if x = k then v else f x)) ks
      else map (\<lambda>x. (x, f x)) ks @ [(k, v)])"
  by (induction ks) auto

lemma map_of_map_pairs:
  "map_of (map (\<lambda>x. (x, f x)) ks) k = (if k \<in> set ks then Some (f k) else None)"
  by (induction ks) auto

lemma first_occ_snoc:
  "first_occ (xs @ [x]) = (if x \<in> set xs then first_occ xs else first_occ xs @ [x])"
  by (simp add: first_occ_def)

lemma set_first_occ [simp]: "set (first_occ xs) = set xs"
  by (simp add: first_occ_def)

lemma distinct_first_occ [simp]: "distinct (first_occ xs)"
  by (simp add: first_occ_def)

lemma length_first_occ: "length (first_occ xs) = card (set xs)"
  by (simp add: first_occ_def length_remdups_card_conv)

text \<open>The dict maps each byte to its number of occurrences, keys in order of first
  occurrence.\<close>

lemma byte_counts_eq:
  "byte_counts bs = map (\<lambda>b. (b, count_list bs b)) (first_occ bs)"
proof (induction bs rule: rev_induct)
  case Nil
  then show ?case by (simp add: byte_counts_def first_occ_def)
next
  case (snoc x xs)
  have "byte_counts (xs @ [x]) = count_bump (byte_counts xs) x"
    by (simp add: byte_counts_def)
  also have "\<dots> = map (\<lambda>b. (b, count_list (xs @ [x]) b)) (first_occ (xs @ [x]))"
    using snoc.IH
    by (auto simp: count_bump_def update_map_pairs map_of_map_pairs first_occ_snoc
                   count_list_0_iff intro!: map_cong)
  finally show ?case .
qed

lemma sum_counts: "sum_list (map snd (byte_counts bs)) = length bs"
proof -
  have "sum_list (map (count_list bs) (first_occ bs)) = sum (count_list bs) (set bs)"
    by (simp add: sum_list_distinct_conv_sum_set)
  also have "\<dots> = length bs"
    by (simp add: sum_count_set)
  finally have "sum_list (map (count_list bs) (first_occ bs)) = length bs" .
  then show ?thesis by (simp add: byte_counts_eq comp_def)
qed

subsection \<open>Entropy\<close>

lemma sum_list_divide:
  "(\<Sum>x\<leftarrow>xs. f x / (N :: real)) = (\<Sum>x\<leftarrow>xs. f x) / N"
  by (induction xs) (simp_all add: add_divide_distrib)

text \<open>Gibbs' inequality for a list of positive counts: the Shannon entropy of the
  distribution they define is at most the logarithm of their number.\<close>

lemma gibbs_list:
  fixes cs :: "nat list" and N :: real
  assumes pos: "\<forall>c\<in>set cs. 0 < c" and N: "N = real (sum_list cs)" and ne: "cs \<noteq> []"
  shows "(\<Sum>c\<leftarrow>cs. (real c / N) * log 2 (N / real c)) \<le> log 2 (real (length cs))"
proof -
  define k where "k = real (length cs)"
  have k: "0 < k" using ne by (simp add: k_def)
  have N0: "0 < N"
    using ne pos N by (cases cs) (auto intro: add_pos_nonneg)
  have each: "(real c / N) * log 2 (N / real c) - (real c / N) * log 2 k \<le> (1 / k - real c / N) / ln 2"
    if "c \<in> set cs" for c
  proof -
    have c: "0 < real c" using pos that by simp
    have q: "0 < N / (k * real c)" using N0 k c by simp
    have "(real c / N) * log 2 (N / real c) - (real c / N) * log 2 k =
            (real c / N) * (ln (N / (k * real c)) / ln 2)"
      using N0 k c by (simp add: log_def ln_div ln_mult field_simps)
    also have "\<dots> \<le> (real c / N) * ((N / (k * real c) - 1) / ln 2)"
      using ln_le_minus_one [OF q] N0 c by (intro mult_left_mono divide_right_mono) simp_all
    also have "\<dots> = (1 / k - real c / N) / ln 2"
      using N0 k c by (simp add: field_simps)
    finally show ?thesis .
  qed
  have "(\<Sum>c\<leftarrow>cs. (real c / N) * log 2 (N / real c) - (real c / N) * log 2 k) \<le>
          (\<Sum>c\<leftarrow>cs. (1 / k - real c / N) / ln 2)"
    using each by (rule sum_list_mono)
  also have "\<dots> = (k * (1 / k) - (\<Sum>c\<leftarrow>cs. real c) / N) / ln 2"
    by (simp add: sum_list_subtractf sum_list_divide k_def sum_list_const_mult sum_list_triv)
  also have "\<dots> = 0"
    using k N0 N ne pos by (auto simp add: sum_list_of_nat neq_Nil_conv)
  finally have "(\<Sum>c\<leftarrow>cs. (real c / N) * log 2 (N / real c) - (real c / N) * log 2 k) \<le> 0" .
  then have "(\<Sum>c\<leftarrow>cs. (real c / N) * log 2 (N / real c)) - (\<Sum>c\<leftarrow>cs. real c / N) * log 2 k \<le> 0"
    by (simp only: sum_list_subtractf sum_list_mult_const)
  moreover have "(\<Sum>c\<leftarrow>cs. real c / N) = 1"
    using N0 N ne pos by (auto simp add: sum_list_divide sum_list_of_nat neq_Nil_conv)
  ultimately show ?thesis by (simp add: k_def)
qed

lemma sum_list_neg:
  "(\<Sum>x\<leftarrow>xs. - f x) = - (\<Sum>x\<leftarrow>xs. f x :: real)"
  by (induction xs) simp_all

lemma fold_entropy_step:
  "\<forall>c\<in>set cs. 0 < c \<Longrightarrow>
   fold (\<lambda>count e. if 0 < count then e - g count else e) cs e0 = e0 - (\<Sum>c\<leftarrow>cs. g c :: real)"
  by (induction cs arbitrary: e0) (simp_all add: algebra_simps)

lemma entropy_sum:
  assumes "\<forall>c\<in>set (map snd counts). 0 < c"
  shows "entropy counts =
           (let N = real (sum_list (map snd counts))
            in \<Sum>c\<leftarrow>map snd counts. (real c / N) * log 2 (N / real c))"
proof -
  let ?N = "real (sum_list (map snd counts))"
  have "(\<Sum>c\<leftarrow>map snd counts. (real c / ?N) * log 2 (real c / ?N)) =
        - (\<Sum>c\<leftarrow>map snd counts. (real c / ?N) * log 2 (?N / real c))"
  proof -
    have "(real c / ?N) * log 2 (real c / ?N) = - ((real c / ?N) * log 2 (?N / real c))"
      if "c \<in> set (map snd counts)" for c
    proof -
      have "0 < c" using assms that by blast
      moreover have "c \<le> sum_list (map snd counts)"
        using that by (rule member_le_sum_list) simp
      ultimately have "0 < ?N" and "0 < real c" by simp_all
      then show ?thesis by (simp add: log_divide field_simps)
    qed
    then have "(\<Sum>c\<leftarrow>map snd counts. (real c / ?N) * log 2 (real c / ?N)) =
               (\<Sum>c\<leftarrow>map snd counts. - ((real c / ?N) * log 2 (?N / real c)))"
      by (intro arg_cong [where f = sum_list] map_cong refl) blast
    then show ?thesis by (simp only: sum_list_neg)
  qed
  then show ?thesis
    using assms by (simp add: entropy_def fold_entropy_step Let_def)
qed

lemma byte_counts_pos: "\<forall>c\<in>set (map snd (byte_counts bs)). 0 < c"
  by (auto simp: byte_counts_eq count_list_0_iff intro!: gr0I)

lemma entropy_byte_counts_le:
  assumes "bs \<noteq> []"
  shows "entropy (byte_counts bs) \<le> log 2 (real (card (set bs)))"
proof -
  have ne: "map snd (byte_counts bs) \<noteq> []"
    using assms by (simp add: byte_counts_eq first_occ_def)
  have "entropy (byte_counts bs) \<le> log 2 (real (length (map snd (byte_counts bs))))"
    unfolding entropy_sum [OF byte_counts_pos] Let_def
    by (rule gibbs_list [OF byte_counts_pos refl ne])
  then show ?thesis
    by (simp add: byte_counts_eq length_first_occ)
qed

lemma entropy_nonneg: "0 \<le> entropy (byte_counts bs)"
proof -
  let ?N = "real (sum_list (map snd (byte_counts bs)))"
  have "0 \<le> (real c / ?N) * log 2 (?N / real c)" if "c \<in> set (map snd (byte_counts bs))" for c
  proof -
    have "0 < c" using byte_counts_pos that by blast
    moreover have "c \<le> sum_list (map snd (byte_counts bs))"
      using that by (rule member_le_sum_list) simp
    ultimately show ?thesis by (intro mult_nonneg_nonneg) simp_all
  qed
  then have nn: "\<forall>x\<in>set (map (\<lambda>c. (real c / ?N) * log 2 (?N / real c)) (map snd (byte_counts bs))). 0 \<le> x"
    by (simp only: set_map) blast
  show ?thesis
    unfolding entropy_sum [OF byte_counts_pos] Let_def by (rule sum_list_nonneg) (use nn in blast)
qed

subsection \<open>The decision\<close>

lemma ratio_gt_iff:
  assumes "0 < n"
  shows "(3 / 10 < real u / real n) \<longleftrightarrow> 3 * n < 10 * u"
proof -
  have "(3 / 10 < real u / real n) \<longleftrightarrow> 3 * real n < 10 * real u"
    using assms by (simp add: field_simps)
  also have "\<dots> \<longleftrightarrow> real (3 * n) < real (10 * u)" by simp
  also have "\<dots> \<longleftrightarrow> 3 * n < 10 * u" by (rule of_nat_less_iff)
  finally show ?thesis .
qed

lemma detect_unfold:
  "text \<noteq> [] \<Longrightarrow>
   detect_file_type text =
     (if 3 * length text < 10 * unusual_count text \<or> 7 < entropy (byte_counts (utf8_encode text))
      then FtEncrypted else FtPlaintext)"
  unfolding detect_file_type_def Let_def
  by (subst ratio_gt_iff) simp_all

lemma detect_ratio:
  assumes "text \<noteq> []" and "3 * length text < 10 * unusual_count text"
  shows "detect_file_type text = FtEncrypted"
  using assms by (simp add: detect_unfold)

text \<open>With at most 128 distinct byte values the entropy is at most 7, so the
  entropy test never fires and the ratio alone decides.\<close>

lemma detect_few_bytes:
  assumes "text \<noteq> []" and "card (set (utf8_encode text)) \<le> 128"
  shows "detect_file_type text =
           (if 3 * length text < 10 * unusual_count text then FtEncrypted else FtPlaintext)"
proof (cases "utf8_encode text = []")
  case True
  then have "entropy (byte_counts (utf8_encode text)) = 0"
    by (simp add: byte_counts_def entropy_def)
  with assms(1) show ?thesis
    by (simp add: detect_unfold)
next
  case False
  then have "0 < card (set (utf8_encode text))" by (simp add: card_gt_0_iff)
  then have "log 2 (real (card (set (utf8_encode text)))) \<le> log 2 (2 ^ 7)"
    using assms(2) by (subst log_le_cancel_iff) simp_all
  also have "\<dots> = 7" using log_pow_cancel [of 2 7] by simp
  finally have "\<not> 7 < entropy (byte_counts (utf8_encode text))"
    using entropy_byte_counts_le [OF False] by linarith
  with assms(1) show ?thesis
    by (simp add: detect_unfold)
qed

lemma utf8_encode_ascii: "\<forall>c\<in>set text. c < 128 \<Longrightarrow> utf8_encode text = text"
  by (induction "text") (simp_all add: utf8_encode_def utf8_char_def)

lemma detect_ascii:
  assumes "text \<noteq> []" and "\<forall>c\<in>set text. c < 128"
  shows "detect_file_type text =
           (if 3 * length text < 10 * unusual_count text then FtEncrypted else FtPlaintext)"
proof (rule detect_few_bytes [OF assms(1)])
  have "set text \<subseteq> {..<128}" using assms(2) by auto
  then have "card (set text) \<le> card {..<128::nat}" by (rule card_mono [rotated]) simp
  then show "card (set (utf8_encode text)) \<le> 128"
    using assms(2) by (simp add: utf8_encode_ascii)
qed

subsection \<open>Properties\<close>

lemma utf8_char_byte:
  assumes "c < 0x110000"
  shows "\<forall>b\<in>set (utf8_char c). b < 256"
proof -
  have "c div 262144 < 5" using assms by simp
  moreover have "c < 0x800 \<Longrightarrow> c div 64 < 32" by simp
  moreover have "c < 0x10000 \<Longrightarrow> c div 4096 < 16" by simp
  moreover have "(x::nat) mod 64 < 64" for x by simp
  ultimately show ?thesis by (auto simp: utf8_char_def)
qed

lemma utf8_encode_byte:
  "\<forall>c\<in>set text. c < 0x110000 \<Longrightarrow> set (utf8_encode text) \<subseteq> {..<256}"
  using utf8_char_byte by (fastforce simp: utf8_encode_def)

lemma detect_file_type_Nil: "detect_file_type [] = FtUnknown"
  by (simp add: detect_file_type_def)

lemma entropy_Nil: "entropy (byte_counts []) = 0"
  by (simp add: entropy_def byte_counts_def)

text \<open>C22: a non-empty ASCII text is classified by the share of its characters
  outside 32..126 alone: \<^verbatim>\<open>"encrypted"\<close> exactly when that share exceeds 3/10,
  since its entropy can never exceed 7 bits.\<close>

theorem classify_ascii:
  assumes "text \<noteq> []" and "\<forall>c\<in>set text. c < 128"
  shows "detect_file_type text =
           (if 3 * length text < 10 * unusual_count text then FtEncrypted else FtPlaintext)"
  using assms by (rule detect_ascii)

theorem classify_ascii_witness:
  "detect_file_type [72, 105, 10] = FtEncrypted"
proof -
  have "detect_file_type [72, 105, 10] =
          (if 3 * length [72, 105, 10 :: nat] < 10 * unusual_count [72, 105, 10] then FtEncrypted else FtPlaintext)"
    by (rule classify_ascii) simp_all
  then show ?thesis by (simp add: unusual_count_def)
qed

text \<open>C24: every non-empty text with more than 30\<percent> of its characters outside
  32..126 is classified \<^verbatim>\<open>"encrypted"\<close>, whatever its entropy.\<close>

theorem classify_ratio:
  assumes "text \<noteq> []" and "3 * length text < 10 * unusual_count text"
  shows "detect_file_type text = FtEncrypted"
  using assms by (simp add: detect_unfold)

theorem classify_ratio_witness:
  "detect_file_type [0] = FtEncrypted"
  by (rule classify_ratio) (simp_all add: unusual_count_def)

text \<open>C23: for every text of Python code points the entropy the classifier computes
  lies between 0 and 8 bits, and it exceeds the threshold 7 only when the UTF-8
  encoding has more than 128 distinct byte values.\<close>

theorem entropy_bounds:
  assumes "\<forall>c\<in>set text. c < 0x110000"
  shows "0 \<le> entropy (byte_counts (utf8_encode text)) \<and>
         entropy (byte_counts (utf8_encode text)) \<le> 8 \<and>
         (7 < entropy (byte_counts (utf8_encode text)) \<longrightarrow> 128 < card (set (utf8_encode text)))"
proof (cases "utf8_encode text = []")
  case True
  then show ?thesis by (simp add: entropy_Nil)
next
  case False
  let ?bs = "utf8_encode text"
  let ?k = "card (set ?bs)"
  have le: "entropy (byte_counts ?bs) \<le> log 2 (real ?k)"
    using False by (rule entropy_byte_counts_le)
  have pos: "0 < ?k" using False by (simp add: card_gt_0_iff)
  have "?k \<le> card {..<256::nat}"
    using utf8_encode_byte [OF assms] by (rule card_mono [rotated]) simp
  then have k: "?k \<le> 256" by simp
  have l8: "log 2 (real ?k) \<le> 8"
  proof -
    have "log 2 (real ?k) \<le> log 2 (2 ^ 8)"
      using pos k by (subst log_le_cancel_iff) simp_all
    then show ?thesis using log_pow_cancel [of 2 8] by simp
  qed
  have l7: "7 < log 2 (real ?k) \<Longrightarrow> 128 < ?k"
  proof -
    assume "7 < log 2 (real ?k)"
    then have "log 2 (2 ^ 7) < log 2 (real ?k)" using log_pow_cancel [of 2 7] by simp
    then have "(2::real) ^ 7 < real ?k" using pos by (subst (asm) log_less_cancel_iff) simp_all
    then show "128 < ?k" by simp
  qed
  show ?thesis
    using entropy_nonneg [of ?bs] le l8 l7 by linarith
qed

theorem entropy_bounds_witness:
  "0 \<le> entropy (byte_counts (utf8_encode [104, 233, 8364])) \<and>
   entropy (byte_counts (utf8_encode [104, 233, 8364])) \<le> 7"
proof -
  have "card (set (utf8_encode [104, 233, 8364])) = 6"
    by (simp add: utf8_encode_def utf8_char_def)
  then show ?thesis
    using entropy_bounds [of "[104, 233, 8364]"] by simp
qed

end
