(* ===== verification/Pipeline.thy ===== *)
theory Pipeline
  imports Caesar Vigenere Lfsr Classifier
begin

text \<open>
  The Streamlit script's control flow (lines 129--196): the settings the user
  enters, the fixed taps \<^verbatim>\<open>LFSR_TAPS\<close>, the encryption pipeline
  Vigenere, then Caesar, then LFSR (lines 163--165), the decryption pipeline
  LFSR, then Caesar, then Vigenere (lines 183--185), and the handler of an
  uploaded file, which classifies the content and refuses to encrypt a file
  classified encrypted or to decrypt one classified plaintext. A Python exception
  inside a pipeline aborts the script run; the model returns it as
  \<open>AppCrash\<close>. Rendering, downloads and \<^verbatim>\<open>st.session_state\<close> are not
  modelled; the uploaded bytes are taken after \<^verbatim>\<open>.decode('utf-8')\<close>.
\<close>

record settings =
  vigenere_key :: pystr
  caesar_shift :: int
  lfsr_seed :: int

text \<open>\<^verbatim>\<open>LFSR_TAPS = [0, 2, 3, 4]\<close> (line 129).\<close>

definition LFSR_TAPS :: "int list" where
  "LFSR_TAPS = [0, 2, 3, 4]"

text \<open>The widgets' defaults (lines 132--137): key \<^verbatim>\<open>rahasia\<close>, shift 3,
  seed 42.\<close>

definition default_settings :: settings where
  "default_settings = \<lparr>vigenere_key = [114, 97, 104, 97, 115, 105, 97], caesar_shift = 3, lfsr_seed = 42\<rparr>"

text \<open>What the number inputs enforce: shift in 1..25, seed in 1..255. The key is
  a free text input.\<close>

definition settings_in_ui_range :: "settings \<Rightarrow> bool" where
  "settings_in_ui_range s \<longleftrightarrow>
     1 \<le> caesar_shift s \<and> caesar_shift s \<le> 25 \<and> 1 \<le> lfsr_seed s \<and> lfsr_seed s \<le> 255"

type_synonym traces = "vig_detail list \<times> caesar_detail list \<times> lfsr_detail list"

definition encrypt_pipeline :: "pystr \<Rightarrow> settings \<Rightarrow> py_error + pystr \<times> traces" where
  "encrypt_pipeline content s =
     sbind (vigenere_process content (vigenere_key s) True) (\<lambda>(v_result, v_details).
       let (c_result, c_details) = caesar_process v_result (caesar_shift s) True
       in sbind (lfsr_cipher c_result (lfsr_seed s) LFSR_TAPS) (\<lambda>(final, l_details).
            Inr (final, v_details, c_details, l_details)))"

definition decrypt_pipeline :: "pystr \<Rightarrow> settings \<Rightarrow> py_error + pystr \<times> traces" where
  "decrypt_pipeline content s =
     sbind (lfsr_cipher content (lfsr_seed s) LFSR_TAPS) (\<lambda>(l_result, l_details).
       let (c_result, c_details) = caesar_process l_result (caesar_shift s) False
       in sbind (vigenere_process c_result (vigenere_key s) False) (\<lambda>(final, v_details).
            Inr (final, v_details, c_details, l_details)))"

datatype button = EncryptButton | DecryptButton

datatype app_outcome =
    RejectAlreadyEncrypted        \<comment> \<open>\<^verbatim>\<open>File sudah terenkripsi!\<close>\<close>
  | RejectIsPlaintext             \<comment> \<open>\<^verbatim>\<open>File adalah plaintext!\<close>\<close>
  | EncryptDone pystr traces      \<comment> \<open>\<^verbatim>\<open>Enkripsi Berhasil\<close>, the download's content\<close>
  | DecryptDone pystr traces      \<comment> \<open>\<^verbatim>\<open>Dekripsi Berhasil\<close>\<close>
  | AppCrash py_error             \<comment> \<open>an exception ends the script run\<close>

text \<open>Lines 143--196 for one script run in which button \<open>b\<close> was pressed: the
  badge shows the classification, then the pressed button's branch runs.\<close>

definition app_handle :: "pystr \<Rightarrow> settings \<Rightarrow> button \<Rightarrow> file_type \<times> app_outcome" where
  "app_handle content s b =
     (let file_type = detect_file_type content
      in (file_type,
          case b of
            EncryptButton \<Rightarrow>
              if file_type = FtEncrypted then RejectAlreadyEncrypted
              else (case encrypt_pipeline content s of
                      Inl e \<Rightarrow> AppCrash e
                    | Inr (final, tr) \<Rightarrow> EncryptDone final tr)
          | DecryptButton \<Rightarrow>
              if file_type = FtPlaintext then RejectIsPlaintext
              else (case decrypt_pipeline content s of
                      Inl e \<Rightarrow> AppCrash e
                    | Inr (final, tr) \<Rightarrow> DecryptDone final tr)))"

subsection \<open>Composition lemmas\<close>

lemma taps_in_range_LFSR_TAPS: "taps_in_range 8 LFSR_TAPS"
  by (simp add: taps_in_range_def LFSR_TAPS_def)

lemma caesar_inverse_map:
  "map (caesar_char (- shift)) (map (caesar_char shift) xs) = map (\<lambda>c. c mod 256) xs"
  by (simp add: caesar_char_inverse_any)

text \<open>Decrypting what the app encrypted, with the same settings, gives the text
  back modulo 256, for any accepted key and non-negative seed.\<close>

lemma pipeline_decrypt_encrypt:
  assumes key: "key_ok (vigenere_key s)" and seed: "0 \<le> lfsr_seed s"
  shows "\<exists>ct tr1 tr2. encrypt_pipeline x s = Inr (ct, tr1) \<and>
                     decrypt_pipeline ct s = Inr (map (\<lambda>c. c mod 256) x, tr2)"
proof -
  let ?k = "vigenere_key s" and ?sh = "caesar_shift s" and ?sd = "lfsr_seed s"
  let ?v = "vig_spec ?k True x"
  let ?c = "map (caesar_char ?sh) ?v"
  let ?F = "\<lambda>txt. map (\<lambda>(i, c). c XOR ks_byte LFSR_TAPS (reg0 ?sd) i) (enumerate 0 txt)"
  obtain vd where v: "vigenere_process x ?k True = Inr (?v, vd)"
    using vigenere_process_key_ok [OF key] by blast
  have c: "fst (caesar_process ?v ?sh True) = ?c"
    by (simp add: caesar_process_fst)
  obtain ld1 where l1: "lfsr_cipher ?c ?sd LFSR_TAPS = Inr (?F ?c, ld1)"
    using lfsr_cipher_in_range [OF seed taps_in_range_LFSR_TAPS] by blast
  obtain ld2 where l2: "lfsr_cipher (?F ?c) ?sd LFSR_TAPS = Inr (?c, ld2)"
    using lfsr_cipher_in_range [OF seed taps_in_range_LFSR_TAPS, of "?F ?c"]
    by (auto simp: xor_enumerate_involution)
  have c2: "fst (caesar_process ?c ?sh False) = ?v"
  proof -
    have "map (caesar_char (- ?sh)) ?c = map (\<lambda>c. c mod 256) ?v"
      by (rule caesar_inverse_map)
    also have "\<dots> = ?v"
      using vig_spec_lt [of ?k True x] by (simp add: map_idI)
    finally show ?thesis by (simp add: caesar_process_fst)
  qed
  obtain vd2 where v2: "vigenere_process ?v ?k False = Inr (map (\<lambda>c. c mod 256) x, vd2)"
    using vigenere_process_key_ok [OF key] vig_spec_inverse_any by fastforce
  show ?thesis
    using v c l1 l2 c2 v2
    by (simp add: encrypt_pipeline_def decrypt_pipeline_def split_def Let_def)
qed

lemma encrypt_pipeline_length:
  "encrypt_pipeline x s = Inr (ct, tr) \<Longrightarrow> length ct = length x"
  by (auto simp: encrypt_pipeline_def sbind_def split_def Let_def split: sum.splits
           dest!: vigenere_process_length lfsr_cipher_length)

lemma decrypt_pipeline_length:
  "decrypt_pipeline x s = Inr (pt, tr) \<Longrightarrow> length pt = length x"
  by (auto simp: decrypt_pipeline_def sbind_def split_def Let_def split: sum.splits
           dest!: vigenere_process_length lfsr_cipher_length)

lemma encrypt_pipeline_bytes:
  assumes "encrypt_pipeline x s = Inr (y, tr)"
  shows "\<forall>c\<in>set y. c < 256"
proof -
  obtain v vd where v: "vigenere_process x (vigenere_key s) True = Inr (v, vd)"
    using assms by (cases "vigenere_process x (vigenere_key s) True") (auto simp: encrypt_pipeline_def)
  let ?c = "fst (caesar_process v (caesar_shift s) True)"
  obtain ld where "lfsr_cipher ?c (lfsr_seed s) LFSR_TAPS = Inr (y, ld)"
    using assms v by (cases "lfsr_cipher ?c (lfsr_seed s) LFSR_TAPS")
      (auto simp: encrypt_pipeline_def split_def Let_def)
  then show ?thesis
    using taps_in_range_LFSR_TAPS caesar_process_bytes by (rule lfsr_cipher_bytes)
qed

lemma decrypt_pipeline_bytes:
  assumes "decrypt_pipeline x s = Inr (y, tr)"
  shows "\<forall>c\<in>set y. c < 256"
proof -
  obtain l ld where l: "lfsr_cipher x (lfsr_seed s) LFSR_TAPS = Inr (l, ld)"
    using assms by (cases "lfsr_cipher x (lfsr_seed s) LFSR_TAPS") (auto simp: decrypt_pipeline_def)
  let ?c = "fst (caesar_process l (caesar_shift s) False)"
  obtain vd where "vigenere_process ?c (vigenere_key s) False = Inr (y, vd)"
    using assms l by (cases "vigenere_process ?c (vigenere_key s) False")
      (auto simp: decrypt_pipeline_def split_def Let_def)
  then show ?thesis by (rule vigenere_process_bytes)
qed

end
