(* ===== verification/Keystream.thy ===== *)
theory Keystream
  imports Pipeline
begin

unbundle bit_operations_syntax

text \<open>
  The keystream of the tap configuration the app fixes, \<^verbatim>\<open>LFSR_TAPS = [0, 2, 3, 4]\<close>
  (line 129). The feedback reads cells 0, 2, 3 and 4 only, so the cells 5..7 are
  shifted out without ever influencing the register: the register behaves as a
  5-cell register with recurrence \<open>s(n) = s(n-1) + s(n-3) + s(n-4) + s(n-5)\<close> over
  GF(2), whose characteristic polynomial \<open>x^5 + x^4 + x^2 + x + 1\<close> is primitive.
  Hence from step 3 on every register repeats with period 31 (not 255, as an
  8-bit register could), and a seed whose top five bits are zero (seeds 0..7)
  gives key bytes 0 from byte 1 on.

  The register step is linear for XOR, and XOR makes every natural number its own
  inverse, so the periodicity is proved symbolically for a register of eight
  arbitrary cells, by normalising XOR terms with associativity, commutativity and
  cancellation.
\<close>

lemma xor_cancel_left: "(a :: nat) XOR (a XOR b) = b"
  by (simp add: xor.assoc [symmetric])

lemmas xor_ac_simps = xor.assoc xor.commute xor.left_commute xor_cancel_left

lemma length_8_cases:
  assumes "length st = 8"
  obtains a0 a1 a2 a3 a4 a5 a6 a7 where "st = [a0, a1, a2, a3, a4, a5, a6, a7]"
  using assms by (auto simp: numeral_eq_Suc length_Suc_conv)

text \<open>Thirty-one steps after step 3 the register is back where it was.\<close>

lemma lfsr_state_34:
  assumes "length st = 8"
  shows "lfsr_state LFSR_TAPS 34 st = lfsr_state LFSR_TAPS 3 st"
proof -
  obtain a0 a1 a2 a3 a4 a5 a6 a7 where "st = [a0, a1, a2, a3, a4, a5, a6, a7]"
    using assms by (rule length_8_cases)
  then show ?thesis
    by (simp add: LFSR_TAPS_def lfsr_next_def feedback_of_def py_nth_def numeral_eq_Suc
                  xor_ac_simps)
qed

lemma lfsr_state_period:
  assumes "length st = 8" and "3 \<le> n"
  shows "lfsr_state LFSR_TAPS (n + 31 * j) st = lfsr_state LFSR_TAPS n st"
proof (induction j)
  case 0
  then show ?case by simp
next
  case (Suc j)
  obtain k where n: "n = 3 + k" using assms(2) by (metis le_iff_add)
  have "lfsr_state LFSR_TAPS (n + 31 * Suc j) st = lfsr_state LFSR_TAPS (k + 31 * j) (lfsr_state LFSR_TAPS 34 st)"
    by (simp add: n lfsr_state_add [symmetric] algebra_simps)
  also have "\<dots> = lfsr_state LFSR_TAPS (k + 31 * j) (lfsr_state LFSR_TAPS 3 st)"
    using assms(1) by (simp add: lfsr_state_34)
  also have "\<dots> = lfsr_state LFSR_TAPS (n + 31 * j) st"
    by (simp add: n lfsr_state_add [symmetric] algebra_simps)
  finally show ?case using Suc.IH by simp
qed

lemma ks_byte_period:
  assumes "length st = 8" and "1 \<le> i"
  shows "ks_byte LFSR_TAPS st (i + 31) = ks_byte LFSR_TAPS st i"
proof -
  have "lfsr_state LFSR_TAPS (8 * i + 31 * 8) st = lfsr_state LFSR_TAPS (8 * i) st"
    using assms by (intro lfsr_state_period) simp_all
  then show ?thesis by (simp add: ks_byte_def algebra_simps)
qed

text \<open>A register whose first five cells are 0 is all 0 after eight steps, and the
  all-zero register is a fixed point.\<close>

lemma lfsr_state_8_zero_prefix:
  assumes "length st = 8" and "take 5 st = replicate 5 0"
  shows "lfsr_state LFSR_TAPS 8 st = replicate 8 0"
proof -
  obtain a0 a1 a2 a3 a4 a5 a6 a7 where st: "st = [a0, a1, a2, a3, a4, a5, a6, a7]"
    using assms(1) by (rule length_8_cases)
  with assms(2) show ?thesis
    by (simp add: LFSR_TAPS_def lfsr_next_def feedback_of_def py_nth_def numeral_eq_Suc)
qed

lemma lfsr_state_zero: "lfsr_state LFSR_TAPS n (replicate 8 0) = replicate 8 0"
proof (induction n)
  case 0
  then show ?case by simp
next
  case (Suc n)
  have "lfsr_next LFSR_TAPS (replicate 8 0) = replicate 8 (0 :: nat)"
    by (simp add: LFSR_TAPS_def lfsr_next_def feedback_of_def py_nth_def numeral_eq_Suc)
  with Suc show ?case by simp
qed

lemma lfsr_bits_zero: "lfsr_bits LFSR_TAPS n (replicate 8 0) = replicate n 0"
proof (induction n)
  case 0
  then show ?case by simp
next
  case (Suc n)
  have "lfsr_next LFSR_TAPS (replicate 8 0) = replicate 8 (0 :: nat)"
    using lfsr_state_zero [of 1] by simp
  with Suc show ?case by simp
qed

lemma bits_val_replicate_0: "bits_val (replicate n 0) = 0"
  by (induction n) (simp_all add: bits_val_Cons)

lemma reg0_small_seed:
  assumes "0 \<le> seed" and "seed < 8"
  shows "take 5 (reg0 seed) = replicate 5 0"
proof -
  have "length (bin_digits (nat seed)) \<le> 3"
    using assms by (intro length_bin_digits_le) simp_all
  then show ?thesis
    by (simp add: reg0_def zfill_def)
qed

lemma ks_byte_small_seed:
  assumes "0 \<le> seed" and "seed < 8" and "1 \<le> i"
  shows "ks_byte LFSR_TAPS (reg0 seed) i = 0"
proof -
  obtain k where i: "i = Suc k" using assms(3) by (cases i) auto
  have len: "length (reg0 seed) = 8" using assms by (simp add: length_reg0_byte)
  have "lfsr_state LFSR_TAPS (8 * i) (reg0 seed) = lfsr_state LFSR_TAPS (8 * k) (lfsr_state LFSR_TAPS 8 (reg0 seed))"
    by (simp add: i lfsr_state_add [symmetric] algebra_simps)
  also have "\<dots> = replicate 8 0"
    using lfsr_state_8_zero_prefix [OF len reg0_small_seed [OF assms(1,2)]] by (simp add: lfsr_state_zero)
  finally show ?thesis
    by (simp add: ks_byte_def lfsr_bits_zero bits_val_replicate_0)
qed

lemma lfsr_cipher_app_taps:
  assumes "0 \<le> seed" and "lfsr_cipher text seed LFSR_TAPS = Inr (ct, d)"
  shows "length ct = length text \<and>
         (\<forall>j<length text. ct ! j = text ! j XOR ks_byte LFSR_TAPS (reg0 seed) j)"
proof -
  obtain d' where "lfsr_cipher text seed LFSR_TAPS =
      Inr (map (\<lambda>(i, c). c XOR ks_byte LFSR_TAPS (reg0 seed) i) (enumerate 0 text), d')"
    using lfsr_cipher_in_range [OF assms(1) taps_in_range_LFSR_TAPS] by blast
  with assms(2) have "ct = map (\<lambda>(i, c). c XOR ks_byte LFSR_TAPS (reg0 seed) i) (enumerate 0 text)"
    by simp
  then show ?thesis
    by (simp add: nth_enumerate_eq)
qed

subsection \<open>Properties\<close>

text \<open>C8: with the app's taps the keystream repeats every 31 bytes from byte 1 on,
  for every seed in 0..255: characters 31 positions apart are XORed with the same
  key byte, so \<open>ct[i+31] XOR text[i+31] = ct[i] XOR text[i]\<close>.\<close>

theorem keystream_reuse:
  assumes "0 \<le> seed" and "seed < 256" and "lfsr_cipher text seed LFSR_TAPS = Inr (ct, d)"
    and "1 \<le> i" and "i + 31 < length text"
  shows "ct ! (i + 31) XOR text ! (i + 31) = ct ! i XOR text ! i"
proof -
  have len: "length (reg0 seed) = 8" using assms(1,2) by (simp add: length_reg0_byte)
  have "ct ! (i + 31) XOR text ! (i + 31) = ks_byte LFSR_TAPS (reg0 seed) (i + 31)"
    and "ct ! i XOR text ! i = ks_byte LFSR_TAPS (reg0 seed) i"
    using lfsr_cipher_app_taps [OF assms(1,3)] assms(5) by (simp_all add: xor.commute xor_cancel_left)
  with ks_byte_period [OF len assms(4)] show ?thesis by simp
qed

theorem keystream_reuse_witness:
  "\<exists>ct d. lfsr_cipher (replicate 40 0) 42 LFSR_TAPS = Inr (ct, d) \<and> ct ! 32 = ct ! 1"
proof -
  obtain ct d where e: "lfsr_cipher (replicate 40 0) 42 LFSR_TAPS = Inr (ct, d)"
    using lfsr_cipher_in_range [OF _ taps_in_range_LFSR_TAPS, of 42 "replicate 40 0"] by auto
  have "ct ! (1 + 31) XOR replicate 40 0 ! (1 + 31) = ct ! 1 XOR replicate 40 (0::nat) ! 1"
    by (rule keystream_reuse [OF _ _ e]) simp_all
  with e show ?thesis by auto
qed

text \<open>C12: seeds 0..7, which the seed input accepts from 1 on, are degenerate with
  the app's taps: the stream stage changes at most the first character and leaves
  every later one as it is.\<close>

theorem weak_seeds:
  assumes "0 \<le> seed" and "seed < 8"
  shows "\<exists>ct d. lfsr_cipher text seed LFSR_TAPS = Inr (ct, d) \<and> drop 1 ct = drop 1 text"
proof -
  obtain ct d where e: "lfsr_cipher text seed LFSR_TAPS = Inr (ct, d)"
    using lfsr_cipher_in_range [OF assms(1) taps_in_range_LFSR_TAPS] by blast
  have "drop 1 ct = drop 1 text"
  proof (rule nth_equalityI)
    show "length (drop 1 ct) = length (drop 1 text)"
      using lfsr_cipher_app_taps [OF assms(1) e] by simp
  next
    fix j assume "j < length (drop 1 ct)"
    then show "drop 1 ct ! j = drop 1 text ! j"
      using lfsr_cipher_app_taps [OF assms(1) e] ks_byte_small_seed [OF assms, of "Suc j"]
      by simp
  qed
  with e show ?thesis by blast
qed

theorem weak_seeds_witness:
  "\<exists>ct d. lfsr_cipher [104, 97, 108, 111] 5 LFSR_TAPS = Inr (ct, d) \<and>
          drop 1 ct = drop 1 [104, 97, 108, 111]"
  by (rule weak_seeds) simp_all

end
