(* ===== verification/Register.thy ===== *)
theory Register
  imports Lfsr
begin

unbundle bit_operations_syntax

text \<open>
  The register of \<^verbatim>\<open>lfsr_cipher\<close> (lines 71--84) as a state machine, and as an
  8-bit machine word.

  \<^item> \<open>lfsr_reachable taps seed\<close> is the set of registers the keystream loop can be
    in: the register \<^verbatim>\<open>lfsr_init\<close> builds (line 72) and every register one
    successful \<^verbatim>\<open>lfsr_step\<close> (lines 77--84) leads to. By rule induction the
    reachable registers of a seed below 256 are 8-bit registers of bits, on which
    the step never fails when the taps are in range.
  \<^item> \<open>reg_word\<close> reads a register as an \<open>8 word\<close>, cell 0 as its most significant bit.
    \<open>lfsr_word_step\<close> is the step the code implements, on the word: the output is bit
    0, the next word is the word shifted right by one with the feedback, the XOR of
    the tapped bits, in bit 7. The list-of-bits step and the keystream loop
    \<^verbatim>\<open>lfsr_gen\<close> refine it: \<open>reg_word\<close> maps each list step to the word step.
\<close>

section \<open>Definitions\<close>

text \<open>Registers the keystream loop reaches from the seed.\<close>

inductive lfsr_reachable :: "int list \<Rightarrow> int \<Rightarrow> register \<Rightarrow> bool" for taps seed where
  init: "lfsr_init seed = Inr st \<Longrightarrow> lfsr_reachable taps seed st"
| step: "lfsr_reachable taps seed st \<Longrightarrow> lfsr_step taps st = Inr (b, st') \<Longrightarrow>
           lfsr_reachable taps seed st'"

text \<open>The register as a machine word, and the tap \<open>t\<close> (Python index) as a bit
  position of the word.\<close>

definition reg_word :: "register \<Rightarrow> 8 word" where
  "reg_word st = word_of_nat (bits_val st)"

definition word_tap :: "int \<Rightarrow> nat" where
  "word_tap t = 7 - nat (t mod 8)"

definition word_feedback :: "int list \<Rightarrow> 8 word \<Rightarrow> bool" where
  "word_feedback taps w = fold (\<lambda>t fb. fb \<noteq> bit w (word_tap t)) taps False"

definition lfsr_word_step :: "int list \<Rightarrow> 8 word \<Rightarrow> bool \<times> 8 word" where
  "lfsr_word_step taps w = (bit w 0, drop_bit 1 w OR (if word_feedback taps w then 128 else 0))"

text \<open>\<open>n\<close> word steps: the emitted bits and the final word.\<close>

fun lfsr_word_run :: "int list \<Rightarrow> nat \<Rightarrow> 8 word \<Rightarrow> bool list \<times> 8 word" where
  "lfsr_word_run taps 0 w = ([], w)"
| "lfsr_word_run taps (Suc n) w =
     (let (b, w') = lfsr_word_step taps w; (bs, w'') = lfsr_word_run taps n w' in (b # bs, w''))"

section \<open>The step relation\<close>

inductive_cases lfsr_reachable_cases: "lfsr_reachable taps seed st"

lemma tap_feedback_Inr_range:
  "tap_feedback st taps fb = Inr x \<Longrightarrow> taps_in_range (length st) taps"
proof (induction taps arbitrary: fb)
  case Nil
  then show ?case by (simp add: taps_in_range_def)
next
  case (Cons t ts)
  show ?case
  proof (cases "py_index st t")
    case (Inl e)
    with Cons.prems show ?thesis by simp
  next
    case (Inr v)
    with Cons.prems have r: "tap_feedback st ts (fb XOR v) = Inr x" by simp
    have "- int (length st) \<le> t \<and> t < int (length st)"
      using py_index_Inr_iff [of st t] Inr by simp
    with Cons.IH [OF r] show ?thesis by (simp add: taps_in_range_def)
  qed
qed

lemma lfsr_step_Inr_inv:
  assumes "lfsr_step taps st = Inr (b, st')"
  shows "st \<noteq> [] \<and> taps_in_range (length st) taps \<and> b = last st \<and> st' = lfsr_next taps st"
proof -
  obtain ob where ob: "py_index st (-1) = Inr ob"
    using assms by (cases "py_index st (-1)") (simp_all add: lfsr_step_def)
  obtain fb where fb: "tap_feedback st taps 0 = Inr fb"
    using assms ob by (cases "tap_feedback st taps 0") (simp_all add: lfsr_step_def)
  have ne: "st \<noteq> []"
    using ob py_index_Inr_iff [of st "-1"] by auto
  have tr: "taps_in_range (length st) taps"
    using fb by (rule tap_feedback_Inr_range)
  show ?thesis
    using assms lfsr_step_in_range [OF ne tr] ne tr by simp
qed

lemma lfsr_reachable_byte:
  assumes "lfsr_reachable taps seed st" and "seed < 256"
  shows "length st = 8 \<and> reg_ok st"
  using assms
proof induction
  case (init st)
  then show ?case
    by (auto simp: lfsr_init_def length_reg0_byte reg0_ok simp flip: reg0_def split: if_splits)
next
  case (step st b st')
  then have st: "length st = 8" "reg_ok st" by simp_all
  have i: "st \<noteq> []" "taps_in_range (length st) taps" "st' = lfsr_next taps st"
    using lfsr_step_Inr_inv [OF step.hyps(2)] by simp_all
  show ?case
    using st i reg_ok_lfsr_next [OF st(2) i(2)] by (simp add: lfsr_next_def)
qed

section \<open>Registers as words\<close>

lemma bit_Suc_bitpair: "(b::nat) \<le> 1 \<Longrightarrow> bit (b + 2 * a) (Suc k) \<longleftrightarrow> bit a k"
  by (simp add: bit_Suc)

lemma bit_0_bitpair: "(b::nat) \<le> 1 \<Longrightarrow> bit (b + 2 * a) 0 \<longleftrightarrow> b = 1"
  by (auto simp: bit_0 le_Suc_eq)

lemma bit_bits_val:
  "\<forall>b\<in>set xs. b \<le> 1 \<Longrightarrow> bit (bits_val xs) k \<longleftrightarrow> k < length xs \<and> xs ! (length xs - 1 - k) = 1"
proof (induction xs arbitrary: k rule: rev_induct)
  case Nil
  then show ?case by simp
next
  case (snoc b xs)
  then have b: "b \<le> 1" and ok: "\<forall>b\<in>set xs. b \<le> 1" by simp_all
  have v: "bits_val (xs @ [b]) = b + 2 * bits_val xs"
    by (simp add: bits_val_append)
  show ?case
  proof (cases k)
    case 0
    then show ?thesis
      using b by (simp add: v bit_0_bitpair nth_append)
  next
    case (Suc k')
    then have "bit (bits_val (xs @ [b])) k \<longleftrightarrow> bit (bits_val xs) k'"
      using b by (simp add: v bit_Suc_bitpair)
    also have "\<dots> \<longleftrightarrow> k' < length xs \<and> xs ! (length xs - 1 - k') = 1"
      using ok by (rule snoc.IH)
    also have "\<dots> \<longleftrightarrow> k < length (xs @ [b]) \<and> (xs @ [b]) ! (length (xs @ [b]) - 1 - k) = 1"
      using Suc by (auto simp: nth_append)
    finally show ?thesis .
  qed
qed

lemma bit_reg_word:
  assumes "length st = 8" and "reg_ok st"
  shows "bit (reg_word st) k \<longleftrightarrow> k < 8 \<and> st ! (7 - k) = 1"
proof -
  have ok: "\<forall>b\<in>set st. b \<le> 1"
    using assms(2) by (simp add: reg_ok_def list_all_iff)
  have "bit (reg_word st) k \<longleftrightarrow> k < 8 \<and> bit (bits_val st) k"
    by (simp add: reg_word_def bit_of_nat_iff possible_bit_def)
  also have "\<dots> \<longleftrightarrow> k < 8 \<and> st ! (7 - k) = 1"
    using bit_bits_val [OF ok, of k] assms(1) by auto
  finally show ?thesis .
qed

lemma py_nth_byte:
  assumes "length st = 8" and "- 8 \<le> t" and "t < 8"
  shows "py_nth st t = st ! nat (t mod 8)"
proof (cases "0 \<le> t")
  case True
  then show ?thesis using assms by (simp add: py_nth_def)
next
  case False
  then have "t mod 8 = 8 + t" using assms(2) by presburger
  then show ?thesis using False assms(1) by (simp add: py_nth_def)
qed

lemma py_nth_word:
  assumes "length st = 8" and "reg_ok st" and "- 8 \<le> t" and "t < 8"
  shows "py_nth st t = 1 \<longleftrightarrow> bit (reg_word st) (word_tap t)"
proof -
  have lt: "nat (t mod 8) < 8" by (simp add: nat_less_iff)
  have w: "word_tap t < 8" and w7: "7 - word_tap t = nat (t mod 8)"
    using lt by (simp_all add: word_tap_def)
  have "bit (reg_word st) (word_tap t) \<longleftrightarrow> st ! nat (t mod 8) = 1"
    using bit_reg_word [OF assms(1,2), of "word_tap t"] w w7 by simp
  moreover have "py_nth st t = st ! nat (t mod 8)"
    using assms(1,3,4) by (rule py_nth_byte)
  ultimately show ?thesis by (simp only:)
qed

lemma xor_bit_iff:
  "(a :: nat) \<le> 1 \<Longrightarrow> b \<le> 1 \<Longrightarrow> a XOR b = 1 \<longleftrightarrow> (a = 1) \<noteq> (b = 1)"
  by (auto simp: le_Suc_eq)

lemma fold_feedback_word:
  assumes "length st = 8" and "reg_ok st" and "taps_in_range 8 taps" and "fb \<le> 1"
  shows "fold (\<lambda>t fb. fb XOR py_nth st t) taps fb \<le> 1 \<and>
         (fold (\<lambda>t fb. fb XOR py_nth st t) taps fb = 1 \<longleftrightarrow>
          fold (\<lambda>t c. c \<noteq> bit (reg_word st) (word_tap t)) taps (fb = 1))"
  using assms(3,4)
proof (induction taps arbitrary: fb)
  case Nil
  then show ?case by simp
next
  case (Cons t ts)
  then have t: "- 8 \<le> t" "t < 8" and ts: "taps_in_range 8 ts"
    by (simp_all add: taps_in_range_def)
  have p: "py_nth st t \<le> 1"
    using py_nth_in_set [of st t] assms(1,2) t by (auto simp: reg_ok_def list_all_iff)
  have x: "fb XOR py_nth st t \<le> 1"
    using Cons.prems(2) p by (rule xor_bit_le)
  have "(fb XOR py_nth st t = 1) \<longleftrightarrow> ((fb = 1) \<noteq> bit (reg_word st) (word_tap t))"
    using xor_bit_iff [OF Cons.prems(2) p] py_nth_word [OF assms(1,2) t] by simp
  then show ?case
    using Cons.IH [OF ts x] by simp
qed

lemma bit_128_nat: "bit (128 :: nat) n \<longleftrightarrow> n = 7"
proof -
  have "(128 :: nat) = push_bit 7 1" by simp
  then show ?thesis by (simp only: bit_push_bit_iff_nat bit_1_iff) auto
qed
lemma bit_128_byte: "bit (128 :: 8 word) n \<longleftrightarrow> n = 7"
proof -
  have "(128 :: 8 word) = word_of_nat (128 :: nat)" by simp
  then show ?thesis by (simp only: bit_of_nat_iff bit_128_nat) (auto simp: possible_bit_def)
qed

lemma feedback_word:
  assumes "length st = 8" and "reg_ok st" and "taps_in_range 8 taps"
  shows "feedback_of taps st \<le> 1 \<and> (feedback_of taps st = 1 \<longleftrightarrow> word_feedback taps (reg_word st))"
  using fold_feedback_word [OF assms, of 0] by (simp add: feedback_of_def word_feedback_def)

lemma last_reg_word:
  assumes "length st = 8" and "reg_ok st"
  shows "last st = 1 \<longleftrightarrow> bit (reg_word st) 0"
proof -
  have "st \<noteq> []" using assms(1) by auto
  then show ?thesis using assms by (simp add: bit_reg_word last_conv_nth)
qed

lemma reg_word_lfsr_next:
  assumes "length st = 8" and "reg_ok st" and "taps_in_range 8 taps"
  shows "reg_word (lfsr_next taps st) = snd (lfsr_word_step taps (reg_word st))"
proof (rule bit_word_eqI)
  fix n :: nat
  assume "n < LENGTH(8)"
  then have n: "n < 8" by simp
  have tr: "taps_in_range (length st) taps" using assms by simp
  have len': "length (lfsr_next taps st) = 8" using assms(1) by (simp add: lfsr_next_def)
  have ok': "reg_ok (lfsr_next taps st)" using reg_ok_lfsr_next [OF assms(2) tr] .
  have fb: "feedback_of taps st = 1 \<longleftrightarrow> word_feedback taps (reg_word st)"
    using feedback_word [OF assms] by simp
  have lhs: "bit (reg_word (lfsr_next taps st)) n \<longleftrightarrow> (feedback_of taps st # butlast st) ! (7 - n) = 1"
    using bit_reg_word [OF len' ok', of n] n by (simp add: lfsr_next_def)
  show "bit (reg_word (lfsr_next taps st)) n \<longleftrightarrow> bit (snd (lfsr_word_step taps (reg_word st))) n"
  proof (cases "n = 7")
    case True
    then show ?thesis
      using lhs fb by (simp add: lfsr_word_step_def bit_or_iff bit_drop_bit_eq bit_128_byte bit_reg_word [OF assms(1,2)])
  next
    case False
    with n have "7 - n = Suc (6 - n)" and "Suc n < 8" by simp_all
    moreover have "\<not> bit (128 :: 8 word) n" using False bit_128_byte [of n] by blast
    ultimately show ?thesis
      using lhs False assms(1) by (simp add: lfsr_word_step_def bit_or_iff bit_drop_bit_eq bit_128_byte
          bit_reg_word [OF assms(1,2)] nth_butlast)
  qed
qed

lemma byte_reg_next:
  assumes "length st = 8" and "reg_ok st" and "taps_in_range 8 taps"
  shows "length (lfsr_next taps st) = 8 \<and> reg_ok (lfsr_next taps st)"
  using assms reg_ok_lfsr_next [of st taps] by (simp add: lfsr_next_def)

lemma lfsr_run_word:
  assumes "length st = 8" and "reg_ok st" and "taps_in_range 8 taps"
  shows "lfsr_word_run taps n (reg_word st) =
           (map (\<lambda>b. b = 1) (lfsr_bits taps n st), reg_word (lfsr_state taps n st))"
  using assms(1,2)
proof (induction n arbitrary: st)
  case 0
  then show ?case by simp
next
  case (Suc n)
  have nx: "length (lfsr_next taps st) = 8" "reg_ok (lfsr_next taps st)"
    using byte_reg_next [OF Suc.prems assms(3)] by simp_all
  have "lfsr_word_step taps (reg_word st) = (last st = 1, reg_word (lfsr_next taps st))"
    using last_reg_word [OF Suc.prems] reg_word_lfsr_next [OF Suc.prems assms(3)]
    by (simp add: lfsr_word_step_def)
  then show ?case
    using Suc.IH [OF nx] by simp
qed

lemma bits_of_bool:
  "\<forall>b\<in>set bs. b \<le> (1::nat) \<Longrightarrow> map (\<lambda>b. of_bool (b = 1)) bs = bs"
  by (induction bs) (auto simp: le_Suc_eq)

lemma lfsr_step_byte:
  assumes "length st = 8" and "reg_ok st" and "taps_in_range 8 taps"
  shows "lfsr_step taps st = Inr (last st, lfsr_next taps st)"
proof -
  have "st \<noteq> []" and "taps_in_range (length st) taps" using assms(1,3) by auto
  then show ?thesis by (rule lfsr_step_in_range)
qed

section \<open>Properties\<close>

text \<open>C15: every register the keystream loop reaches from a seed in 0..255 has eight
  cells, each 0 or 1, and with taps in range the next step succeeds on it, emitting
  the last cell and shifting the feedback in.\<close>

theorem lfsr_reachable_safe:
  assumes "lfsr_reachable taps seed st" and "seed < 256" and "taps_in_range 8 taps"
  shows "length st = 8 \<and> reg_ok st \<and> lfsr_step taps st = Inr (last st, lfsr_next taps st)"
  using lfsr_reachable_byte [OF assms(1,2)] lfsr_step_byte assms(3) by blast

theorem lfsr_reachable_safe_witness:
  "length (reg0 42) = 8 \<and> reg_ok (reg0 42) \<and>
   lfsr_step [0, 2, 3, 4] (reg0 42) = Inr (last (reg0 42), lfsr_next [0, 2, 3, 4] (reg0 42))"
proof -
  have "lfsr_reachable [0, 2, 3, 4] 42 (reg0 42)"
    using lfsr_init_reg0 [of 42] by (simp add: lfsr_reachable.init)
  then show ?thesis
    using lfsr_reachable_safe [of "[0, 2, 3, 4]" 42 "reg0 42"] by (simp add: taps_in_range_def)
qed

text \<open>C9: on an 8-cell register of bits with taps in range, \<^verbatim>\<open>lfsr_step\<close> refines
  the word step: it succeeds, its output bit is bit 0 of the word and its next
  register reads as the next word.\<close>

theorem lfsr_step_refines_word:
  assumes "length st = 8" and "reg_ok st" and "taps_in_range 8 taps"
  shows "map_sum id (\<lambda>(b, st'). (b = 1, reg_word st')) (lfsr_step taps st) =
           Inr (lfsr_word_step taps (reg_word st))"
proof -
  have "st \<noteq> []" and "taps_in_range (length st) taps" using assms(1,3) by auto
  then have "lfsr_step taps st = Inr (last st, lfsr_next taps st)"
    by (rule lfsr_step_in_range)
  then show ?thesis
    using last_reg_word [OF assms(1,2)] reg_word_lfsr_next [OF assms]
    by (simp add: lfsr_word_step_def)
qed

theorem lfsr_step_refines_word_witness:
  "map_sum id (\<lambda>(b, st'). (b = 1, reg_word st')) (lfsr_step [0, 2, 3, 4] (reg0 42)) =
     Inr (lfsr_word_step [0, 2, 3, 4] (reg_word (reg0 42)))"
  by (rule lfsr_step_refines_word) (simp_all add: length_reg0_byte reg0_ok taps_in_range_def)

text \<open>C13: the keystream loop \<^verbatim>\<open>lfsr_gen\<close> on such a register appends the bits
  of \<open>n\<close> word steps and ends in the register of the final word.\<close>

theorem lfsr_gen_refines_word:
  assumes "length st = 8" and "reg_ok st" and "taps_in_range 8 taps"
  shows "\<exists>st' details'. lfsr_gen taps i n st bits details = Inr (st', bits @ map of_bool (fst (lfsr_word_run taps n (reg_word st))), details') \<and>
           reg_word st' = snd (lfsr_word_run taps n (reg_word st))"
proof -
  have ne: "st \<noteq> []" and tr: "taps_in_range (length st) taps" using assms(1,3) by auto
  have "\<forall>b\<in>set (lfsr_bits taps n st). b \<le> 1"
    using lfsr_bits_ok [OF ne assms(2) tr] .
  then have "map (\<lambda>b. of_bool (b = 1)) (lfsr_bits taps n st) = lfsr_bits taps n st"
    by (rule bits_of_bool)
  then show ?thesis
    using lfsr_gen_in_range [OF ne tr, of i n bits details] lfsr_run_word [OF assms, of n]
    by (simp add: comp_def)
qed

theorem lfsr_gen_refines_word_witness:
  "\<exists>st' details'. lfsr_gen [0, 2, 3, 4] 0 8 (reg0 42) [] [] =
      Inr (st', [] @ map of_bool (fst (lfsr_word_run [0, 2, 3, 4] 8 (reg_word (reg0 42)))), details') \<and>
    reg_word st' = snd (lfsr_word_run [0, 2, 3, 4] 8 (reg_word (reg0 42)))"
  by (rule lfsr_gen_refines_word) (simp_all add: length_reg0_byte reg0_ok taps_in_range_def)

end
