(* ===== verification/Page.thy ===== *)
theory Page
  imports Pipeline
begin

text \<open>
  The rest of the upload handler (lines 141--198) around the two pipelines: the
  badge markdown rendered with \<^verbatim>\<open>unsafe_allow_html=True\<close> (lines 146--149),
  the \<^verbatim>\<open>st.session_state\<close> writes (lines 151 and 176), the download
  buttons and their file names (lines 175 and 195), and the page without an upload
  (lines 197--198). \<open>page_run\<close> is one run of the script: the upload (file name
  and raw bytes, or none), the settings, the button pressed (or none) and the
  session state before the run give the page shown and the session state after it.

  The upload is read with \<^verbatim>\<open>decode('utf-8')\<close> (line 144), and a download is a
  Python string, which Streamlit writes as its UTF-8 bytes. \<open>utf8_decode\<close> is that
  strict decoder, written from the UTF-8 definition (a library function, not code
  of the repository): it is the exact inverse of \<open>utf8_encode\<close> (the encoder of
  line 13) on Unicode scalar values, so a downloaded file uploaded again gives the
  same string.
\<close>

section \<open>Definitions\<close>

text \<open>A Python string literal, and the strings \<^verbatim>\<open>detect_file_type\<close> returns.\<close>

definition pylit :: "string \<Rightarrow> pystr" where
  "pylit s = map of_char s"

definition file_type_str :: "file_type \<Rightarrow> pystr" where
  "file_type_str ft = (case ft of FtUnknown \<Rightarrow> pylit ''unknown'' | FtEncrypted \<Rightarrow> pylit ''encrypted''
                       | FtPlaintext \<Rightarrow> pylit ''plaintext'')"

text \<open>\<^verbatim>\<open>str.upper\<close> of a string, character by character.\<close>

definition py_str_upper :: "pystr \<Rightarrow> pystr" where
  "py_str_upper s = concat (map py_upper s)"

text \<open>Lines 146--149: \<^verbatim>\<open>f'{icon} {uploaded_file.name} <span class="file-badge {badge_class}">{file_type.upper()}</span>'\<close>,
  with the icons U+1F4C4 and U+1F512 and the character 34 for the double quote.\<close>

definition badge_markdown :: "file_type \<Rightarrow> pystr \<Rightarrow> pystr" where
  "badge_markdown ft name =
     (let badge_class = (if ft = FtPlaintext then pylit ''badge-plaintext'' else pylit ''badge-encrypted'');
          icon = (if ft = FtPlaintext then [128196] else [128274])
      in icon @ pylit '' '' @ name @ pylit '' <span class='' @ [34] @ pylit ''file-badge '' @ badge_class @
         [34] @ pylit ''>'' @ py_str_upper (file_type_str ft) @ pylit ''</span>'')"

text \<open>Strict UTF-8 decoding: a continuation byte is 0x80..0xBF, a two-byte sequence
  starts with 0xC2..0xDF, three- and four-byte sequences must not be overlong, must
  not encode a surrogate and must stay below 0x110000; anything else is a
  \<^verbatim>\<open>UnicodeDecodeError\<close> (\<open>None\<close>).\<close>

definition utf8_cont :: "nat \<Rightarrow> bool" where
  "utf8_cont b \<longleftrightarrow> 0x80 \<le> b \<and> b < 0xC0"

fun utf8_decode :: "nat list \<Rightarrow> pystr option" where
  "utf8_decode [] = Some []"
| "utf8_decode (b # bs) =
     (if b < 0x80 then map_option (Cons b) (utf8_decode bs)
      else if 0xC2 \<le> b \<and> b < 0xE0 then
        (case bs of
           c1 # bs' \<Rightarrow>
             if utf8_cont c1 then map_option (Cons ((b - 0xC0) * 64 + (c1 - 0x80))) (utf8_decode bs')
             else None
         | [] \<Rightarrow> None)
      else if 0xE0 \<le> b \<and> b < 0xF0 then
        (case bs of
           c1 # c2 # bs' \<Rightarrow>
             (let v = ((b - 0xE0) * 64 + (c1 - 0x80)) * 64 + (c2 - 0x80)
              in if utf8_cont c1 \<and> utf8_cont c2 \<and> 0x800 \<le> v \<and> \<not> (0xD800 \<le> v \<and> v \<le> 0xDFFF)
                 then map_option (Cons v) (utf8_decode bs') else None)
         | _ \<Rightarrow> None)
      else if 0xF0 \<le> b \<and> b < 0xF5 then
        (case bs of
           c1 # c2 # c3 # bs' \<Rightarrow>
             (let v = (((b - 0xF0) * 64 + (c1 - 0x80)) * 64 + (c2 - 0x80)) * 64 + (c3 - 0x80)
              in if utf8_cont c1 \<and> utf8_cont c2 \<and> utf8_cont c3 \<and> 0x10000 \<le> v \<and> v < 0x110000
                 then map_option (Cons v) (utf8_decode bs') else None)
         | _ \<Rightarrow> None)
      else None)"

definition scalar_value :: "codepoint \<Rightarrow> bool" where
  "scalar_value c \<longleftrightarrow> c < 0x110000 \<and> \<not> (0xD800 \<le> c \<and> c \<le> 0xDFFF)"

text \<open>The keys of \<^verbatim>\<open>st.session_state\<close> the script writes.\<close>

record page_session =
  file_content :: "pystr option"
  ss_file_type :: "file_type option"
  file_name :: "pystr option"
  encrypted :: "pystr option"

text \<open>What a run shows: nothing but the hint of line 198 without an upload; the
  \<^verbatim>\<open>UnicodeDecodeError\<close> of line 144 when the file is not UTF-8; otherwise the
  badge, the outcome of the pressed button (none if no button was pressed) and the
  file offered for download, as a file name and the bytes Streamlit writes for a
  string (its UTF-8 encoding).\<close>

datatype page_view =
    PageIdle
  | PageDecodeError
  | PageFile pystr "app_outcome option" "(pystr \<times> nat list) option"

text \<open>One run of lines 143--198 on an upload given as file name and raw bytes.\<close>

definition page_run ::
  "(pystr \<times> nat list) option \<Rightarrow> settings \<Rightarrow> button option \<Rightarrow> page_session \<Rightarrow> page_view \<times> page_session" where
  "page_run upload s b ss =
     (case upload of
        None \<Rightarrow> (PageIdle, ss)
      | Some (name, raw) \<Rightarrow>
          (case utf8_decode raw of
             None \<Rightarrow> (PageDecodeError, ss)
           | Some content \<Rightarrow>
               (let ft = detect_file_type content;
                    badge = badge_markdown ft name;
                    ss1 = ss\<lparr>file_content := Some content, ss_file_type := Some ft, file_name := Some name\<rparr>
                in case b of
                     None \<Rightarrow> (PageFile badge None None, ss1)
                   | Some btn \<Rightarrow>
                       (case snd (app_handle content s btn) of
                          EncryptDone final tr \<Rightarrow>
                            (PageFile badge (Some (EncryptDone final tr))
                               (Some (pylit ''encrypted_'' @ name, utf8_encode final)),
                             ss1\<lparr>encrypted := Some final\<rparr>)
                        | DecryptDone final tr \<Rightarrow>
                            (PageFile badge (Some (DecryptDone final tr))
                               (Some (pylit ''decrypted_'' @ name, utf8_encode final)), ss1)
                        | out \<Rightarrow> (PageFile badge (Some out) None, ss1)))))"

definition empty_session :: page_session where
  "empty_session = \<lparr>file_content = None, ss_file_type = None, file_name = None, encrypted = None\<rparr>"

text \<open>Sessions the page can be in, from the empty session through any sequence of
  runs, and what a consistent session holds.\<close>

inductive page_reachable :: "page_session \<Rightarrow> bool" where
  start: "page_reachable empty_session"
| run: "page_reachable ss \<Longrightarrow> page_run upload s b ss = (v, ss') \<Longrightarrow> page_reachable ss'"

definition session_ok :: "page_session \<Rightarrow> bool" where
  "session_ok ss \<longleftrightarrow>
     ss_file_type ss = map_option detect_file_type (file_content ss) \<and>
     (file_content ss = None \<longleftrightarrow> file_name ss = None) \<and>
     (encrypted ss \<noteq> None \<longrightarrow> file_content ss \<noteq> None) \<and>
     pred_option (\<lambda>e. \<forall>c\<in>set e. c < 256) (encrypted ss)"

section \<open>UTF-8 decoding\<close>

lemma div_div_64: "(c :: nat) div (64 * k) = c div 64 div k"
  by (simp add: div_mult2_eq)

lemma digits_64_2: "((c div 4096) * 64 + (c div 64) mod 64) * 64 + c mod 64 = (c :: nat)"
  using div_div_64 [of c 64] by simp

lemma digits_64_3:
  "(((c div 262144) * 64 + (c div 4096) mod 64) * 64 + (c div 64) mod 64) * 64 + c mod 64 = (c :: nat)"
proof -
  have e: "c div 262144 = c div 4096 div 64"
    using div_mult2_eq [of c 4096 64] by simp
  have "(c div 262144) * 64 + (c div 4096) mod 64 = c div 4096"
    by (simp only: e div_mult_mod_eq)
  then show ?thesis using digits_64_2 [of c] by simp
qed

lemma utf8_decode_char:
  assumes "scalar_value c"
  shows "utf8_decode (utf8_char c @ rest) = map_option (Cons c) (utf8_decode rest)"
proof -
  consider "c < 0x80" | "0x80 \<le> c" "c < 0x800" | "0x800 \<le> c" "c < 0x10000" | "0x10000 \<le> c"
    by linarith
  then show ?thesis
  proof cases
    case 1
    then show ?thesis by (simp add: utf8_char_def)
  next
    case 2
    have "c div 64 < 32" "2 \<le> c div 64" using 2 by simp_all
    then show ?thesis
      using 2 by (simp add: utf8_char_def utf8_cont_def)
  next
    case 3
    have "c div 4096 < 16" using 3 by simp
    then show ?thesis
      using 3 assms digits_64_2 [of c] by (auto simp: utf8_char_def utf8_cont_def scalar_value_def Let_def)
  next
    case 4
    have "c div 262144 < 5" using assms by (simp add: scalar_value_def div_less_iff_less_mult)
    then show ?thesis
      using 4 assms digits_64_3 [of c] by (simp add: utf8_char_def utf8_cont_def scalar_value_def Let_def)
  qed
qed

lemma utf8_encode_Cons: "utf8_encode (c # t) = utf8_char c @ utf8_encode t"
  by (simp add: utf8_encode_def)

lemma utf8_decode_encode:
  "\<forall>c\<in>set t. scalar_value c \<Longrightarrow> utf8_decode (utf8_encode t) = Some t"
  by (induction t) (simp_all add: utf8_encode_Cons utf8_decode_char, simp add: utf8_encode_def)

lemma div_mod_64: "z < 64 \<Longrightarrow> (q * 64 + z) div 64 = (q :: nat) \<and> (q * 64 + z) mod 64 = z"
  by simp

lemma utf8_char_2:
  assumes "x < 64" and "2 \<le> a" and "a < 32"
  shows "utf8_char (a * 64 + x) = [0xC0 + a, 0x80 + x]"
proof -
  have "128 \<le> a * 64 + x" and "a * 64 + x < 2048" using assms by simp_all
  then show ?thesis using assms by (simp add: utf8_char_def)
qed

lemma utf8_char_3:
  assumes "y < 64" and "z < 64" and "a < 16" and "v = (a * 64 + y) * 64 + z"
    and "0x800 \<le> v" and "\<not> (0xD800 \<le> v \<and> v \<le> 0xDFFF)"
  shows "utf8_char v = [0xE0 + a, 0x80 + y, 0x80 + z]"
proof -
  have d: "v div 64 = a * 64 + y" "v mod 64 = z"
    unfolding assms(4) using div_mod_64 [OF assms(2)] by blast+
  have "v div 4096 = v div 64 div 64" using div_div_64 [of v 64] by simp
  then have "v div 4096 = a" using d div_mod_64 [OF assms(1)] by simp
  moreover have "v < 65536" using assms(1-4) by simp
  ultimately show ?thesis using assms(1,5,6) d by (simp add: utf8_char_def)
qed

lemma utf8_char_4:
  assumes "x < 64" and "y < 64" and "z < 64" and "v = ((a * 64 + x) * 64 + y) * 64 + z"
    and "0x10000 \<le> v"
  shows "utf8_char v = [0xF0 + a, 0x80 + x, 0x80 + y, 0x80 + z]"
proof -
  have d: "v div 64 = (a * 64 + x) * 64 + y" "v mod 64 = z"
    unfolding assms(4) using div_mod_64 [OF assms(3)] by blast+
  have "v div 4096 = v div 64 div 64" using div_div_64 [of v 64] by simp
  then have d2: "v div 4096 = a * 64 + x"
    using d(1) conjunct1 [OF div_mod_64 [OF assms(2), of "a * 64 + x"]] by (simp only:)
  have "v div 262144 = v div 4096 div 64" using div_mult2_eq [of v 4096 64] by simp
  then have "v div 262144 = a"
    using d2 conjunct1 [OF div_mod_64 [OF assms(1), of a]] by (simp only:)
  moreover have "(v div 64) mod 64 = y"
    using d(1) conjunct2 [OF div_mod_64 [OF assms(2), of "a * 64 + x"]] by (simp only:)
  moreover have "(v div 4096) mod 64 = x"
    using d2 conjunct2 [OF div_mod_64 [OF assms(1), of a]] by (simp only:)
  ultimately show ?thesis using assms(5) d(2) by (simp add: utf8_char_def)
qed

lemma utf8_decode_Cons_Some:
  assumes "utf8_decode (b # bs) = Some t"
  shows "\<exists>v rest t'. b # bs = utf8_char v @ rest \<and> scalar_value v \<and> t = v # t' \<and>
           utf8_decode rest = Some t' \<and> length rest < length (b # bs)"
proof -
  consider "b < 0x80" | "0xC2 \<le> b" "b < 0xE0" | "0xE0 \<le> b" "b < 0xF0" | "0xF0 \<le> b" "b < 0xF5"
    using assms by (cases "b < 0x80 \<or> 0xC2 \<le> b \<and> b < 0xE0 \<or> 0xE0 \<le> b \<and> b < 0xF0 \<or> 0xF0 \<le> b \<and> b < 0xF5")
      auto
  then show ?thesis
  proof cases
    case 1
    then obtain t' where t': "t = b # t'" "utf8_decode bs = Some t'" using assms by auto
    moreover have "utf8_char b = [b]" using 1 by (simp add: utf8_char_def)
    ultimately show ?thesis using 1 by (intro exI [of _ b] exI [of _ bs] exI [of _ t']) (simp add: scalar_value_def)
  next
    case 2
    then obtain c1 bs' where bs: "bs = c1 # bs'" using assms by (cases bs) auto
    let ?v = "(b - 0xC0) * 64 + (c1 - 0x80)"
    have c1: "utf8_cont c1" using assms 2 bs by (auto split: if_splits)
    then obtain t' where "t = ?v # t'" "utf8_decode bs' = Some t'" using assms 2 bs by auto
    moreover have h: "c1 - 0x80 < 64" "2 \<le> b - 0xC0" "b - 0xC0 < 32"
      using 2 c1 by (auto simp: utf8_cont_def)
    moreover have "utf8_char ?v = [b, c1]"
      using utf8_char_2 [OF h] 2 c1 by (auto simp: utf8_cont_def)
    moreover have "scalar_value ?v"
    proof -
      have "?v < 2048" using h by linarith
      then show ?thesis by (simp add: scalar_value_def)
    qed
    ultimately show ?thesis using bs by (intro exI [of _ ?v] exI [of _ bs'] exI [of _ t']) simp
  next
    case 3
    then obtain c1 c2 bs' where bs: "bs = c1 # c2 # bs'"
      using assms by (cases bs rule: remdups_adj.cases) auto
    let ?v = "((b - 0xE0) * 64 + (c1 - 0x80)) * 64 + (c2 - 0x80)"
    have ok: "utf8_cont c1" "utf8_cont c2" "0x800 \<le> ?v" "\<not> (0xD800 \<le> ?v \<and> ?v \<le> 0xDFFF)"
      using assms 3 bs by (auto simp: Let_def split: if_splits)
    then obtain t' where t': "t = ?v # t'" "utf8_decode bs' = Some t'" using assms 3 bs by (auto simp: Let_def)
    define a x y where "a = b - 0xE0" and "x = c1 - 0x80" and "y = c2 - 0x80"
    have a: "b = 0xE0 + a" "a < 16" and x: "c1 = 0x80 + x" "x < 64" and y: "c2 = 0x80 + y" "y < 64"
      using 3 ok(1,2) by (auto simp: a_def x_def y_def utf8_cont_def)
    have v: "?v = (a * 64 + x) * 64 + y" by (simp add: a_def x_def y_def)
    have "utf8_char ?v = [0xE0 + a, 0x80 + x, 0x80 + y]"
      by (rule utf8_char_3 [OF x(2) y(2) a(2) v]) (fact ok(3), fact ok(4))
    then have "utf8_char ?v = [b, c1, c2]" using a x y by simp
    moreover have "scalar_value ?v"
    proof -
      have "?v < 0x10000" unfolding v using a(2) x(2) y(2) by simp
      then show ?thesis using ok by (simp add: scalar_value_def)
    qed
    ultimately show ?thesis using bs t' by (intro exI [of _ ?v] exI [of _ bs'] exI [of _ t']) simp
  next
    case 4
    then obtain c1 c2 c3 bs' where bs: "bs = c1 # c2 # c3 # bs'"
      using assms by (cases bs; cases "tl bs"; cases "tl (tl bs)") (auto simp: Let_def)
    let ?v = "(((b - 0xF0) * 64 + (c1 - 0x80)) * 64 + (c2 - 0x80)) * 64 + (c3 - 0x80)"
    have ok: "utf8_cont c1" "utf8_cont c2" "utf8_cont c3" "0x10000 \<le> ?v" "?v < 0x110000"
      using assms 4 bs by (auto simp: Let_def split: if_splits)
    then obtain t' where t': "t = ?v # t'" "utf8_decode bs' = Some t'" using assms 4 bs by (auto simp: Let_def)
    define a x y z where "a = b - 0xF0" and "x = c1 - 0x80" and "y = c2 - 0x80" and "z = c3 - 0x80"
    have a: "b = 0xF0 + a" and x: "c1 = 0x80 + x" "x < 64" and y: "c2 = 0x80 + y" "y < 64"
      and z: "c3 = 0x80 + z" "z < 64"
      using 4 ok(1,2,3) by (auto simp: a_def x_def y_def z_def utf8_cont_def)
    have v: "?v = ((a * 64 + x) * 64 + y) * 64 + z" by (simp add: a_def x_def y_def z_def)
    have "utf8_char ?v = [0xF0 + a, 0x80 + x, 0x80 + y, 0x80 + z]"
      by (rule utf8_char_4 [OF x(2) y(2) z(2) v]) (fact ok(4))
    then have "utf8_char ?v = [b, c1, c2, c3]" using a x y z by simp
    moreover have "scalar_value ?v" using ok by (simp add: scalar_value_def)
    ultimately show ?thesis using bs t' by (intro exI [of _ ?v] exI [of _ bs'] exI [of _ t']) simp
  qed
qed

lemma utf8_decode_Some:
  "utf8_decode bs = Some t \<Longrightarrow> bs = utf8_encode t \<and> (\<forall>c\<in>set t. scalar_value c)"
proof (induction "length bs" arbitrary: bs t rule: less_induct)
  case less
  show ?case
  proof (cases bs)
    case Nil
    then show ?thesis using less.prems by (simp add: utf8_encode_def)
  next
    case (Cons b bs0)
    have p: "utf8_decode (b # bs0) = Some t" using less.prems Cons by (simp only:)
    obtain v rest t' where d: "b # bs0 = utf8_char v @ rest" "scalar_value v" "t = v # t'"
        "utf8_decode rest = Some t'" "length rest < length (b # bs0)"
      using utf8_decode_Cons_Some [OF p] by blast
    then have "rest = utf8_encode t' \<and> (\<forall>c\<in>set t'. scalar_value c)"
      using less.hyps Cons by blast
    then show ?thesis using d Cons by (simp add: utf8_encode_Cons)
  qed
qed

lemma utf8_decode_None_iff:
  "utf8_decode raw = None \<longleftrightarrow> \<not> (\<exists>t. raw = utf8_encode t \<and> (\<forall>c\<in>set t. scalar_value c))"
proof
  assume "utf8_decode raw = None"
  then show "\<not> (\<exists>t. raw = utf8_encode t \<and> (\<forall>c\<in>set t. scalar_value c))"
    using utf8_decode_encode by fastforce
next
  assume "\<not> (\<exists>t. raw = utf8_encode t \<and> (\<forall>c\<in>set t. scalar_value c))"
  then show "utf8_decode raw = None"
    using utf8_decode_Some by (cases "utf8_decode raw") blast+
qed

section \<open>Runs of the page\<close>

lemma app_handle_EncryptDone:
  "snd (app_handle content s b) = EncryptDone final tr \<Longrightarrow> encrypt_pipeline content s = Inr (final, tr)"
  by (auto simp: app_handle_def Let_def split: button.splits if_splits sum.splits)

lemma session_ok_page_run:
  assumes "session_ok ss"
  shows "session_ok (snd (page_run upload s b ss))"
proof (cases upload)
  case None
  then show ?thesis using assms by (simp add: page_run_def)
next
  case (Some nr)
  obtain name raw where nr: "nr = (name, raw)" by (cases nr)
  show ?thesis
  proof (cases "utf8_decode raw")
    case None
    then show ?thesis using assms \<open>upload = Some nr\<close> nr by (simp add: page_run_def)
  next
    case (Some content)
    note up = \<open>upload = Some nr\<close> nr Some
    show ?thesis
    proof (cases b)
      case None
      then show ?thesis using assms up by (simp add: page_run_def session_ok_def Let_def)
    next
      case (Some btn)
      show ?thesis
      proof (cases "snd (app_handle content s btn)")
        case (EncryptDone final tr)
        then have "\<forall>c\<in>set final. c < 256"
          using app_handle_EncryptDone encrypt_pipeline_bytes by blast
        then show ?thesis
          using assms up Some EncryptDone by (simp add: page_run_def session_ok_def Let_def)
      qed (use assms up Some in \<open>simp_all add: page_run_def session_ok_def Let_def\<close>)
    qed
  qed
qed
lemma bytes_scalar: "\<forall>c\<in>set t. c < 256 \<Longrightarrow> \<forall>c\<in>set t. scalar_value c"
  by (auto simp: scalar_value_def)

lemma page_run_decoded:
  assumes "utf8_decode raw = Some content"
  shows "fst (page_run (Some (name, raw)) s b ss) \<noteq> PageDecodeError \<and>
         file_content (snd (page_run (Some (name, raw)) s b ss)) = Some content \<and>
         file_name (snd (page_run (Some (name, raw)) s b ss)) = Some name"
proof (cases b)
  case None
  then show ?thesis using assms by (simp add: page_run_def Let_def)
next
  case (Some btn)
  then show ?thesis
    using assms by (cases "snd (app_handle content s btn)") (simp_all add: page_run_def Let_def)
qed

section \<open>Properties\<close>

text \<open>C11: every session the page reaches keeps the file type of the stored content,
  stores a file name exactly when it stores content, and stores as
  \<^verbatim>\<open>encrypted\<close> only Latin-1 text written after a file was uploaded.\<close>

theorem page_session_invariant: "page_reachable ss \<Longrightarrow> session_ok ss"
proof (induction rule: page_reachable.induct)
  case start
  then show ?case by (simp add: session_ok_def empty_session_def)
next
  case (run ss upload s b v ss')
  then show ?case using session_ok_page_run [of ss upload s b] by simp
qed

text \<open>C10: encrypting an upload of Latin-1 text not classified encrypted offers the
  ciphertext for download as \<^verbatim>\<open>encrypted_<name>\<close>; the downloaded file decodes
  back to the ciphertext, and uploading it and pressing decrypt offers the original
  text as \<^verbatim>\<open>decrypted_encrypted_<name>\<close>, unless the ciphertext is classified
  plaintext.\<close>

theorem page_file_roundtrip:
  assumes "key_ok (vigenere_key s)" and "0 \<le> lfsr_seed s" and "\<forall>c\<in>set x. c < 256"
    and "detect_file_type x \<noteq> FtEncrypted"
  shows "\<exists>badge tr data ss'.
           page_run (Some (name, utf8_encode x)) s (Some EncryptButton) ss =
             (PageFile badge (Some (EncryptDone data tr)) (Some (pylit ''encrypted_'' @ name, utf8_encode data)), ss') \<and>
           (detect_file_type data \<noteq> FtPlaintext \<longrightarrow>
              (\<exists>badge' tr' ss''.
                 page_run (Some (pylit ''encrypted_'' @ name, utf8_encode data)) s (Some DecryptButton) ss' =
                 (PageFile badge' (Some (DecryptDone x tr'))
                    (Some (pylit ''decrypted_'' @ pylit ''encrypted_'' @ name, utf8_encode x)), ss'')))"
proof -
  obtain ct tr1 tr2 where e: "encrypt_pipeline x s = Inr (ct, tr1)"
      and d: "decrypt_pipeline ct s = Inr (map (\<lambda>c. c mod 256) x, tr2)"
    using pipeline_decrypt_encrypt [OF assms(1,2)] by blast
  have x: "map (\<lambda>c. c mod 256) x = x" using assms(3) by (simp add: map_idI)
  have decx: "utf8_decode (utf8_encode x) = Some x"
    using assms(3) by (intro utf8_decode_encode bytes_scalar)
  have dec: "utf8_decode (utf8_encode ct) = Some ct"
    using encrypt_pipeline_bytes [OF e] by (intro utf8_decode_encode bytes_scalar)
  let ?ss' = "snd (page_run (Some (name, utf8_encode x)) s (Some EncryptButton) ss)"
  let ?dl = "(pylit ''encrypted_'' @ name, utf8_encode ct)"
  have run1: "page_run (Some (name, utf8_encode x)) s (Some EncryptButton) ss =
      (PageFile (badge_markdown (detect_file_type x) name) (Some (EncryptDone ct tr1)) (Some ?dl), ?ss')"
    using e assms(4) decx by (simp add: page_run_def app_handle_def Let_def)
  have run2: "detect_file_type ct \<noteq> FtPlaintext \<Longrightarrow>
      page_run (Some ?dl) s (Some DecryptButton) ?ss' =
      (PageFile (badge_markdown (detect_file_type ct) (pylit ''encrypted_'' @ name)) (Some (DecryptDone x tr2))
         (Some (pylit ''decrypted_'' @ pylit ''encrypted_'' @ name, utf8_encode x)),
       snd (page_run (Some ?dl) s (Some DecryptButton) ?ss'))"
    using d x dec by (simp add: page_run_def app_handle_def Let_def)
  show ?thesis
    using run1 run2 by blast
qed

theorem page_session_invariant_witness:
  "ss_file_type (snd (page_run (Some (pylit ''a.txt'', [104])) default_settings None empty_session)) =
     Some (detect_file_type [104])"
proof -
  let ?ss = "snd (page_run (Some (pylit ''a.txt'', [104])) default_settings None empty_session)"
  have "page_reachable ?ss"
    using page_reachable.run [OF page_reachable.start, of "Some (pylit ''a.txt'', [104])" default_settings None]
    by (metis prod.collapse)
  then have "session_ok ?ss" by (rule page_session_invariant)
  moreover have "file_content ?ss = Some [104]"
    by (simp add: page_run_def Let_def)
  ultimately show ?thesis by (simp add: session_ok_def)
qed

theorem page_file_roundtrip_witness:
  "\<exists>badge tr data ss'.
     page_run (Some (pylit ''a.txt'', [72, 105])) default_settings (Some EncryptButton) empty_session =
       (PageFile badge (Some (EncryptDone data tr)) (Some (pylit ''encrypted_'' @ pylit ''a.txt'', utf8_encode data)), ss') \<and>
     (\<exists>badge' tr' ss''.
        page_run (Some (pylit ''encrypted_'' @ pylit ''a.txt'', utf8_encode data)) default_settings (Some DecryptButton) ss' =
        (PageFile badge' (Some (DecryptDone [72, 105] tr'))
           (Some (pylit ''decrypted_'' @ pylit ''encrypted_'' @ pylit ''a.txt'', [72, 105])), ss''))"
proof -
  have key: "key_ok (vigenere_key default_settings)"
    by (simp add: default_settings_def key_ok_def py_upper_def)
  have seed: "0 \<le> lfsr_seed default_settings" by (simp add: default_settings_def)
  have pt: "detect_file_type [72, 105] = FtPlaintext"
    by (simp add: detect_ascii unusual_count_def)
  have enc: "utf8_encode [72, 105] = [72, 105]"
    by (simp add: utf8_encode_def utf8_char_def)
  obtain badge tr data ss' where
      r: "page_run (Some (pylit ''a.txt'', [72, 105])) default_settings (Some EncryptButton) empty_session =
            (PageFile badge (Some (EncryptDone data tr)) (Some (pylit ''encrypted_'' @ pylit ''a.txt'', utf8_encode data)), ss')"
      and imp: "detect_file_type data \<noteq> FtPlaintext \<longrightarrow>
        (\<exists>badge' tr' ss''.
           page_run (Some (pylit ''encrypted_'' @ pylit ''a.txt'', utf8_encode data)) default_settings (Some DecryptButton) ss' =
           (PageFile badge' (Some (DecryptDone [72, 105] tr'))
              (Some (pylit ''decrypted_'' @ pylit ''encrypted_'' @ pylit ''a.txt'', utf8_encode [72, 105])), ss''))"
    using page_file_roundtrip [OF key seed _ , of "[72, 105]" "pylit ''a.txt''" empty_session] pt enc by auto
  have "case_sum (\<lambda>e. None) (\<lambda>p. Some (fst p)) (encrypt_pipeline [72, 105] default_settings) = Some [8, 38]"
    by code_simp
  then obtain tr0 where "encrypt_pipeline [72, 105] default_settings = Inr ([8, 38], tr0)"
    by (cases "encrypt_pipeline [72, 105] default_settings") auto
  then have "data = [8, 38]"
    using r pt by (simp add: page_run_def app_handle_def Let_def utf8_encode_def utf8_char_def)
  moreover have "detect_file_type [8, 38] = FtEncrypted"
    by (rule detect_ratio) (simp_all add: unusual_count_def)
  ultimately show ?thesis
    using r imp enc by (auto simp del: split_paired_Ex)
qed

text \<open>C14: line 144 decodes the upload as strict UTF-8: a run ends with
  \<^verbatim>\<open>UnicodeDecodeError\<close>, leaving the session as it was, exactly when the uploaded
  bytes are not the UTF-8 encoding of a text of Unicode scalar values; otherwise the
  session stores that text, whose encoding the bytes are, under the file's name.\<close>

theorem page_upload_decoding:
  "(fst (page_run (Some (name, raw)) s b ss) = PageDecodeError \<longleftrightarrow>
      \<not> (\<exists>t. raw = utf8_encode t \<and> (\<forall>c\<in>set t. scalar_value c))) \<and>
   (fst (page_run (Some (name, raw)) s b ss) = PageDecodeError \<longrightarrow>
      snd (page_run (Some (name, raw)) s b ss) = ss) \<and>
   (\<forall>t. raw = utf8_encode t \<longrightarrow> (\<forall>c\<in>set t. scalar_value c) \<longrightarrow>
      file_content (snd (page_run (Some (name, raw)) s b ss)) = Some t \<and>
      file_name (snd (page_run (Some (name, raw)) s b ss)) = Some name)"
proof (cases "utf8_decode raw")
  case None
  then have n: "\<not> (\<exists>t. raw = utf8_encode t \<and> (\<forall>c\<in>set t. scalar_value c))"
    using utf8_decode_None_iff by blast
  have "page_run (Some (name, raw)) s b ss = (PageDecodeError, ss)"
    using None by (simp add: page_run_def)
  then show ?thesis using n by (intro conjI) (simp, simp, blast)
next
  case (Some t)
  have r: "raw = utf8_encode t \<and> (\<forall>c\<in>set t. scalar_value c)"
    using Some by (rule utf8_decode_Some)
  have u: "t' = t" if "raw = utf8_encode t'" and "\<forall>c\<in>set t'. scalar_value c" for t'
    using Some utf8_decode_encode [OF that(2)] that(1) by simp
  show ?thesis
    using page_run_decoded [OF Some, of name s b ss] r u by blast
qed

theorem page_upload_decoding_witness:
  "file_content (snd (page_run (Some (pylit ''a.txt'', [195, 169])) default_settings None empty_session)) = Some [233]"
proof -
  have enc: "[195, 169] = utf8_encode [233]" by (simp add: utf8_encode_def utf8_char_def)
  have sv: "\<forall>c\<in>set [233]. scalar_value c" by (simp add: scalar_value_def)
  show ?thesis
    using conjunct2 [OF conjunct2 [OF page_upload_decoding [of "pylit ''a.txt''" "[195, 169]"
        default_settings None empty_session]]] enc sv by blast
qed

end
