(* ===== verification/Spec2Isabelle.thy ===== *)
theory Spec2Isabelle
  imports Keystream Register Page
begin

text \<open>
  \<^bold>\<open>A verification development of \<^verbatim>\<open>src/kriptografi_app2.py\<close>.\<close>
  The program is a Streamlit page that encrypts and decrypts the text of an
  uploaded file. Its parts, and the theory that models each:

  \<^item> \<open>Prelude\<close>: Python strings as lists of code points (\<open>pystr\<close>), exceptions as
    values of \<open>py_error\<close> in a result type \<open>py_error + 'a\<close> sequenced by \<open>sbind\<close>,
    Python indexing with negative indices and \<^verbatim>\<open>IndexError\<close> (\<open>py_index\<close>),
    \<^verbatim>\<open>ord\<close> of a one-character string (\<open>py_ord\<close>, \<^verbatim>\<open>TypeError\<close> otherwise) and
    \<^verbatim>\<open>x % 256\<close> (\<open>mod256\<close>, Python's floor remainder is HOL's \<open>mod\<close> on \<open>int\<close>).
  \<^item> \<open>Classifier\<close>: \<^verbatim>\<open>detect_file_type\<close> (lines 6--25) as \<open>detect_file_type\<close>: the
    unusual-character count over code points, the byte counts of the UTF-8
    encoding as an insertion-ordered association list (the Python dict), and the
    Shannon entropy in real arithmetic. Lemmas: the entropy lies between 0 and
    \<open>log 2\<close> of the number of distinct bytes (Gibbs' inequality), so an ASCII text
    never passes the entropy test; the classification of ASCII and high-ratio
    texts.
  \<^item> \<open>Vigenere\<close>: \<^verbatim>\<open>vigenere_process\<close> (lines 27--52) as the loop \<open>vig_loop\<close> with
    its key index, \<^verbatim>\<open>upper\<close> on the Latin-1 case table (\<open>py_upper\<close>), the
    \<^verbatim>\<open>ZeroDivisionError\<close> of an empty key and the \<^verbatim>\<open>TypeError\<close> of a key
    character whose upper case is two characters; a reference \<open>vig_spec\<close> over
    \<^verbatim>\<open>enumerate\<close>. \<open>py_upper\<close> is Python's \<^verbatim>\<open>str.upper\<close> only below 256
    (it leaves every higher code point unchanged), so the lemmas that state the
    shift or the exact error condition assume a Latin-1 key; the round trips and
    trace bounds hold for every key the loop accepts, since the shift cancels.
    Lemmas: functional result, round trip, exact error conditions, trace bound.
  \<^item> \<open>Caesar\<close>: \<^verbatim>\<open>caesar_process\<close> (lines 54--69) as \<open>caesar_loop\<close>; result, round
    trip and trace bound.
  \<^item> \<open>Lfsr\<close>: \<^verbatim>\<open>lfsr_cipher\<close> (lines 71--113): the register as the Python list of
    bits built from \<^verbatim>\<open>bin(seed)\<close> (\<open>lfsr_init\<close>, \<^verbatim>\<open>ValueError\<close> for a negative
    seed), one step \<open>lfsr_step\<close>, the keystream loop \<open>lfsr_gen\<close>, the byte assembly
    \<open>key_byte_at\<close> and the XOR loop \<open>lfsr_xor\<close>; reference functions \<open>lfsr_next\<close>,
    \<open>lfsr_bits\<close>, \<open>lfsr_state\<close>, \<open>ks_byte\<close>. Lemmas: the loops compute the
    reference keystream, the cipher is its own inverse, its exact error conditions.
  \<^item> \<open>Register\<close>: the register as a state machine, \<open>lfsr_reachable\<close>, the inductive
    closure of \<open>lfsr_init\<close> under successful \<open>lfsr_step\<close>s. By rule induction
    every reachable register of a seed in 0..255 is 8 cells of bits on which the
    step succeeds. The register read as an
    \<open>8 word\<close> (\<open>reg_word\<close>) refines the list step to the word step
    \<open>lfsr_word_step\<close> (shift right, feedback into bit 7), for one step and for the
    whole keystream loop.
  \<^item> \<open>Pipeline\<close>: the page's control flow (lines 129--196): the settings record,
    \<open>LFSR_TAPS\<close>, \<open>encrypt_pipeline\<close> (Vigenere, Caesar, LFSR; lines 163--165),
    \<open>decrypt_pipeline\<close> (LFSR, Caesar, Vigenere; lines 183--185) and the upload
    handler \<open>app_handle\<close>, which refuses to encrypt content classified encrypted
    and to decrypt content classified plaintext.
  \<^item> \<open>Page\<close>: one whole script run, \<open>page_run\<close> (lines 143--198): the upload's
    raw bytes decoded by strict UTF-8 (\<open>utf8_decode\<close>, line 144; a
    \<^verbatim>\<open>UnicodeDecodeError\<close> ends the run), the badge markdown rendered as HTML
    (\<open>badge_markdown\<close>, lines 146--149), the \<^verbatim>\<open>st.session_state\<close> record
    \<open>page_session\<close> (lines 151, 176), the pressed button's branch through
    \<open>app_handle\<close>, and the download offered (file name and UTF-8 bytes, lines 175,
    195). Lemmas: the decoder is exactly the inverse of the encoder of line 13, so
    a run fails with \<^verbatim>\<open>UnicodeDecodeError\<close> exactly on bytes that encode no
    text; the reachable sessions (\<open>page_reachable\<close>, by rule induction) stay
    consistent; a downloaded ciphertext uploaded again decrypts to the original
    file. The badge puts the file name unescaped into HTML and shows an empty
    (\<^verbatim>\<open>"unknown"\<close>) file with the encrypted badge; both are findings of the
    model, visible in \<open>badge_markdown\<close>.
  \<^item> \<open>Keystream\<close>: the keystream of the fixed taps \<open>[0, 2, 3, 4]\<close>, proved
    symbolically over eight arbitrary cells: the taps never read cells 5..7, so
    the register repeats with period 31 from step 3 on, key bytes repeat every 31
    characters, and seeds 0..7 give key byte 0 after the first character.
  \<^item> This theory: the properties that span the components, the end-to-end round
    trip and its loss above Latin-1, and the behaviour of the handler.

  Every loop of the program is a \<^verbatim>\<open>for\<close> loop over a finite range or a string,
  so every loop is modelled by structural recursion and every definition is total
  and executable; no fuel is needed. The traces the functions return are
  modelled entry by entry, with the caps of the source (20 characters for the
  classical ciphers, 15 steps and characters for the LFSR).

  \<^bold>\<open>Not modelled.\<close> The page layout and styling (lines 115--127, the
  spinners, expanders and tabs of lines 167--173 and 187--193), which only display;
  Streamlit's widgets themselves: the script run is given the widget values
  (settings, the pressed button) and the uploaded bytes, as Streamlit hands them
  to the script, and the number inputs' bounds are the predicate
  \<open>settings_in_ui_range\<close>; \<^verbatim>\<open>str.upper\<close> beyond Latin-1: the model's case
  table covers code points below 256 and is the identity above, which is wrong for
  cased letters such as U+0142 (upper case U+0141, a different shift) and for
  characters such as U+FB01 whose upper case is several characters (a
  \<^verbatim>\<open>TypeError\<close> the model does not raise); the float rounding of the entropy, computed here in
  the reals.
\<close>

section \<open>End-to-end properties\<close>

text \<open>C1: for every key the Vigenere loop accepts and every non-negative seed,
  decrypting with the app's pipeline what its pipeline encrypted, with the same
  settings, gives back every text whose code points are below 256; neither pipeline
  raises.\<close>

theorem pipeline_roundtrip:
  assumes "key_ok (vigenere_key s)" and "0 \<le> lfsr_seed s" and "\<forall>c\<in>set x. c < 256"
  shows "\<exists>ct tr1 tr2. encrypt_pipeline x s = Inr (ct, tr1) \<and> decrypt_pipeline ct s = Inr (x, tr2)"
proof -
  have "map (\<lambda>c. c mod 256) x = x"
    using assms(3) by (simp add: map_idI)
  then show ?thesis
    using pipeline_decrypt_encrypt [OF assms(1,2), of x] by simp
qed

theorem pipeline_roundtrip_witness:
  "\<exists>ct tr1 tr2. encrypt_pipeline [104, 105, 233] default_settings = Inr (ct, tr1) \<and>
               decrypt_pipeline ct default_settings = Inr ([104, 105, 233], tr2)"
  by (rule pipeline_roundtrip) (simp_all add: default_settings_def key_ok_def py_upper_def)

text \<open>C2: the round trip is lossy above Latin-1: for any code point the pipeline
  gives back only its residue modulo 256, so a character such as the euro sign
  (8364) comes back as 172.\<close>

theorem pipeline_residue:
  assumes "key_ok (vigenere_key s)" and "0 \<le> lfsr_seed s"
  shows "\<exists>ct tr1 tr2. encrypt_pipeline x s = Inr (ct, tr1) \<and>
                     decrypt_pipeline ct s = Inr (map (\<lambda>c. c mod 256) x, tr2)"
  using assms by (rule pipeline_decrypt_encrypt)

theorem pipeline_residue_witness:
  "\<exists>ct tr1 tr2. encrypt_pipeline [8364] default_settings = Inr (ct, tr1) \<and>
               decrypt_pipeline ct default_settings = Inr ([172], tr2)"
proof -
  have "\<exists>ct tr1 tr2. encrypt_pipeline [8364] default_settings = Inr (ct, tr1) \<and>
          decrypt_pipeline ct default_settings = Inr (map (\<lambda>c. c mod 256) [8364], tr2)"
    by (rule pipeline_residue) (simp_all add: default_settings_def key_ok_def py_upper_def)
  then show ?thesis by simp
qed

text \<open>C17: whenever the encryption or the decryption pipeline returns, its output
  has exactly as many characters as its input, whatever the settings.\<close>

theorem pipeline_length:
  "(\<forall>ct tr. encrypt_pipeline x s = Inr (ct, tr) \<longrightarrow> length ct = length x) \<and>
   (\<forall>pt tr. decrypt_pipeline x s = Inr (pt, tr) \<longrightarrow> length pt = length x)"
  by (auto dest: encrypt_pipeline_length decrypt_pipeline_length)

theorem pipeline_length_witness:
  "\<exists>ct tr. encrypt_pipeline [1, 2, 3] default_settings = Inr (ct, tr) \<and> length ct = 3"
proof -
  obtain ct tr where e: "encrypt_pipeline [1, 2, 3] default_settings = Inr (ct, tr)"
    using pipeline_decrypt_encrypt [of default_settings "[1, 2, 3]"]
    by (auto simp: default_settings_def key_ok_def py_upper_def)
  then have "length ct = length [1, 2, 3 :: nat]"
    using pipeline_length [of "[1, 2, 3]" default_settings] by blast
  with e show ?thesis by (simp del: split_paired_Ex)
qed

text \<open>C18: whatever the input, every code point either pipeline returns is below 256:
  the app's output is always Latin-1 text, whatever the uploaded text held.\<close>

theorem pipeline_bytes:
  assumes "encrypt_pipeline x s = Inr (y, tr) \<or> decrypt_pipeline x s = Inr (y, tr)"
  shows "\<forall>c\<in>set y. c < 256"
  using assms encrypt_pipeline_bytes decrypt_pipeline_bytes by blast

theorem pipeline_bytes_witness:
  "\<exists>ct tr. encrypt_pipeline [8364, 300] default_settings = Inr (ct, tr) \<and>
     length ct = 2 \<and> ct ! 0 < 256 \<and> ct ! 1 < 256"
proof -
  have "key_ok (vigenere_key default_settings)"
    by (simp add: default_settings_def key_ok_def py_upper_def)
  moreover have "0 \<le> lfsr_seed default_settings"
    by (simp add: default_settings_def)
  ultimately obtain ct tr where e: "encrypt_pipeline [8364, 300] default_settings = Inr (ct, tr)"
    using pipeline_decrypt_encrypt by blast
  have "\<forall>c\<in>set ct. c < 256"
    using pipeline_bytes [of "[8364, 300]" default_settings ct tr] e by blast
  moreover have len: "length ct = 2"
    using encrypt_pipeline_length [OF e] by simp
  moreover have "ct ! 0 \<in> set ct" and "ct ! 1 \<in> set ct"
    using len by (simp_all add: nth_mem)
  ultimately show ?thesis
    using e by blast
qed

section \<open>The app's handler\<close>

text \<open>C19: the handler shows the classification of the uploaded text, never
  encrypts a text classified encrypted and never decrypts a text classified
  plaintext; an empty upload (\<^verbatim>\<open>"unknown"\<close>) passes both gates.\<close>

theorem app_gate:
  "fst (app_handle content s b) = detect_file_type content \<and>
   (detect_file_type content = FtEncrypted \<longrightarrow>
      snd (app_handle content s EncryptButton) = RejectAlreadyEncrypted) \<and>
   (detect_file_type content = FtPlaintext \<longrightarrow>
      snd (app_handle content s DecryptButton) = RejectIsPlaintext) \<and>
   snd (app_handle [] s b) \<notin> {RejectAlreadyEncrypted, RejectIsPlaintext}"
  by (cases b) (auto simp: app_handle_def Let_def detect_file_type_Nil split: sum.splits prod.splits)

theorem app_gate_witness:
  "fst (app_handle [0] default_settings EncryptButton) = FtEncrypted \<and>
   snd (app_handle [0] default_settings EncryptButton) = RejectAlreadyEncrypted \<and>
   snd (app_handle (replicate 1000 65) default_settings DecryptButton) = RejectIsPlaintext"
proof -
  have e: "detect_file_type [0] = FtEncrypted"
    by (rule detect_ratio) (simp_all add: unusual_count_def)
  have p: "detect_file_type (replicate 1000 65) = FtPlaintext"
    by (simp add: detect_ascii unusual_count_def)
  show ?thesis
    using app_gate [of "[0]" default_settings EncryptButton] app_gate [of "replicate 1000 65" default_settings DecryptButton] e p
    by simp
qed

text \<open>C20: within the app, a text of Latin-1 characters that is not classified
  encrypted is encrypted without error for every accepted key and every seed the
  seed input allows; uploading the result and pressing decrypt gives the text back
  unless the ciphertext is itself classified plaintext.\<close>

theorem app_roundtrip:
  assumes "key_ok (vigenere_key s)" and "settings_in_ui_range s"
    and "\<forall>c\<in>set content. c < 256" and "detect_file_type content \<noteq> FtEncrypted"
  shows "\<exists>ct tr. snd (app_handle content s EncryptButton) = EncryptDone ct tr \<and>
           (detect_file_type ct \<noteq> FtPlaintext \<longrightarrow>
              (\<exists>tr'. snd (app_handle ct s DecryptButton) = DecryptDone content tr'))"
proof -
  have seed: "0 \<le> lfsr_seed s" using assms(2) by (simp add: settings_in_ui_range_def)
  have id: "map (\<lambda>c. c mod 256) content = content"
    using assms(3) by (simp add: map_idI)
  obtain ct tr1 tr2 where e: "encrypt_pipeline content s = Inr (ct, tr1)"
    and d: "decrypt_pipeline ct s = Inr (content, tr2)"
    using pipeline_decrypt_encrypt [OF assms(1) seed, of content] id by auto
  show ?thesis
    using e d assms(4) by (simp add: app_handle_def Let_def del: split_paired_Ex)
qed

theorem app_roundtrip_witness:
  "\<exists>ct tr tr'. snd (app_handle [72, 105] default_settings EncryptButton) = EncryptDone ct tr \<and>
      snd (app_handle ct default_settings DecryptButton) = DecryptDone [72, 105] tr'"
proof -
  have "\<exists>ct tr. snd (app_handle [72, 105] default_settings EncryptButton) = EncryptDone ct tr \<and>
          (detect_file_type ct \<noteq> FtPlaintext \<longrightarrow>
             (\<exists>tr'. snd (app_handle ct default_settings DecryptButton) = DecryptDone [72, 105] tr'))"
  proof (rule app_roundtrip)
    show "key_ok (vigenere_key default_settings)"
      by (simp add: default_settings_def key_ok_def py_upper_def)
    show "settings_in_ui_range default_settings"
      by (simp add: default_settings_def settings_in_ui_range_def)
    show "\<forall>c\<in>set [72, 105 :: nat]. c < 256" by simp
    show "detect_file_type [72, 105] \<noteq> FtEncrypted"
      by (simp add: detect_ascii unusual_count_def)
  qed
  then obtain ct tr where e: "snd (app_handle [72, 105] default_settings EncryptButton) = EncryptDone ct tr"
    and d: "detect_file_type ct \<noteq> FtPlaintext \<longrightarrow>
              (\<exists>tr'. snd (app_handle ct default_settings DecryptButton) = DecryptDone [72, 105] tr')"
    by blast
  have "case_sum (\<lambda>e. None) (\<lambda>p. Some (fst p)) (encrypt_pipeline [72, 105] default_settings) = Some [8, 38]"
    by code_simp
  moreover have "detect_file_type [72, 105] = FtPlaintext"
    by (simp add: detect_ascii unusual_count_def)
  ultimately have "ct = [8, 38]"
    using e by (auto simp: app_handle_def split: sum.splits)
  moreover have "detect_file_type [8, 38] = FtEncrypted"
    by (rule detect_ratio) (simp_all add: unusual_count_def)
  ultimately show ?thesis
    using e d by (auto simp del: split_paired_Ex)
qed

text \<open>C21: the key field may be emptied: pressing encrypt on any non-empty text not
  classified encrypted then crashes the run with \<^verbatim>\<open>ZeroDivisionError\<close> instead of
  reporting an invalid key.\<close>

theorem app_empty_key_crash:
  assumes "content \<noteq> []" and "detect_file_type content \<noteq> FtEncrypted"
  shows "snd (app_handle content (s\<lparr>vigenere_key := []\<rparr>) EncryptButton) = AppCrash ZeroDivisionError"
  using assms by (cases content) (simp_all add: app_handle_def Let_def encrypt_pipeline_def vigenere_process_def)

theorem app_empty_key_crash_witness:
  "snd (app_handle [104] (default_settings\<lparr>vigenere_key := []\<rparr>) EncryptButton) = AppCrash ZeroDivisionError"
proof -
  have h: "detect_file_type [104] \<noteq> FtEncrypted"
    by (simp add: detect_ascii unusual_count_def)
  show ?thesis
    using h app_empty_key_crash [of "[104]"] by simp
qed

end
